theory Spec2Isabelle
  imports Main "HOL-Library.Product_Lexorder"
begin

section \<open>Grid search: depth-first, breadth-first and A*\<close>

text \<open>
  A shallow embedding of \<^verbatim>\<open>graph_search.py\<close>. The three searches mutate the graph
  object (its \<^verbatim>\<open>parent\<close> dictionary and its \<^verbatim>\<open>visited_cells\<close> list) and return a path;
  the model passes the graph explicitly and returns the updated graph with the path.
  A \<^verbatim>\<open>while\<close> loop is a \<^theory_text>\<open>partial_function\<close> in the option monad, so a run that
  never leaves its loop has the value \<open>None\<close>; the inner \<^verbatim>\<open>for\<close> loop over the
  neighbours is a left fold over the neighbour list.
\<close>

subsection \<open>Cells and the graph object\<close>

text \<open>
  Modelled from the spec: \<^verbatim>\<open>Cell\<close> (of \<^verbatim>\<open>graph.py\<close>): a ``value type with two integer
  fields (row index \<^verbatim>\<open>i\<close>, column index \<^verbatim>\<open>j\<close>)''. The searches read the two fields and
  build cells with \<^verbatim>\<open>Cell(i, j)\<close>; they never compare cells: every dictionary and set is
  keyed by the tuple \<^verbatim>\<open>(cell.i, cell.j)\<close>.
\<close>

datatype cell = Cell (cell_i: int) (cell_j: int)

type_synonym key = "int \<times> int"

definition key :: "cell \<Rightarrow> key" where
  "key c = (cell_i c, cell_j c)"

definition cell_of :: "key \<Rightarrow> cell" where
  "cell_of k = Cell (fst k) (snd k)"

text \<open>
  Modelled from the spec: the graph object (of \<^verbatim>\<open>graph.py\<close>), as far as the searches use
  it. The method \<^verbatim>\<open>find_neighbors(i, j)\<close> is a field: any function from the coordinates
  to a list of cells, the same throughout a run. \<^verbatim>\<open>parent\<close> is the dictionary from
  coordinate tuples to a cell or \<^verbatim>\<open>None\<close>, and \<^verbatim>\<open>visited_cells\<close> the list of logged cells.
\<close>

record graph =
  find_neighbors :: "int \<Rightarrow> int \<Rightarrow> cell list"
  parent :: "key \<rightharpoonup> cell option"
  visited_cells :: "cell list"

text \<open>
  Modelled from the spec: \<^verbatim>\<open>init_graph\<close> (of \<^verbatim>\<open>graph.py\<close>, the spec's \<^verbatim>\<open>reset()\<close>):
  ``clears all per-search state (parent links, visited log)''.
\<close>

definition init_graph :: "graph \<Rightarrow> graph" where
  "init_graph g = g\<lparr>parent := Map.empty, visited_cells := []\<rparr>"

subsection \<open>The path reconstructor\<close>

datatype error = No_parent_entry

text \<open>
  Modelled from the spec: \<^verbatim>\<open>trace_path\<close> (of \<^verbatim>\<open>utils.py\<close>): ``walks backward via
  \<^verbatim>\<open>grid.parent\<close> from the goal cell until reaching a cell whose parent is absent (the
  start), prepending each cell, then returns the sequence in start-to-goal order.
  Fails/is undefined if invoked on a cell never discovered (no parent entry)''.
  A cell with no entry is the error \<open>No_parent_entry\<close>; a walk that never reaches a
  cell whose parent is \<^verbatim>\<open>None\<close> is the value \<open>None\<close>.
\<close>

partial_function (option) trace_loop :: "graph \<Rightarrow> cell \<Rightarrow> cell list \<Rightarrow> (error + cell list) option" where
  "trace_loop g c path =
     (case parent g (key c) of
        None \<Rightarrow> Some (Inl No_parent_entry)
      | Some None \<Rightarrow> Some (Inr (Cell (cell_i c) (cell_j c) # path))
      | Some (Some p) \<Rightarrow> trace_loop g p (Cell (cell_i c) (cell_j c) # path))"

declare trace_loop.simps [code]

definition trace_path :: "cell \<Rightarrow> graph \<Rightarrow> (error + cell list) option" where
  "trace_path c g = trace_loop g c []"

text \<open>The \<^verbatim>\<open>return trace_path(current, graph)\<close> of a search: the graph goes with the path.\<close>

definition return_path :: "cell \<Rightarrow> graph \<Rightarrow> (error + graph \<times> cell list) option" where
  "return_path current g =
     (case trace_path current g of
        None \<Rightarrow> None
      | Some (Inl e) \<Rightarrow> Some (Inl e)
      | Some (Inr p) \<Rightarrow> Some (Inr (g, p)))"

subsection \<open>Depth-first and breadth-first search\<close>

text \<open>
  The body of the \<^verbatim>\<open>for nbr in graph.find_neighbors(ci, cj)\<close> loop, the same in
  \<^verbatim>\<open>depth_first_search\<close> (lines 54-62) and \<^verbatim>\<open>breadth_first_search\<close> (lines 93-101):
  a neighbour already in \<^verbatim>\<open>visited\<close> is skipped; a new one is added to \<^verbatim>\<open>visited\<close>, gets
  \<^verbatim>\<open>current\<close> as its parent, is logged, and is appended to the stack or queue.
\<close>

type_synonym frontier_state = "graph \<times> cell list \<times> key set"

definition discover :: "cell \<Rightarrow> frontier_state \<Rightarrow> cell \<Rightarrow> frontier_state" where
  "discover current st nbr =
     (case st of (g, frontier, visited) \<Rightarrow>
        if key nbr \<in> visited then (g, frontier, visited)
        else (g\<lparr>parent := (parent g)(key nbr \<mapsto> Some current),
                visited_cells := visited_cells g @ [Cell (cell_i nbr) (cell_j nbr)]\<rparr>,
              frontier @ [nbr],
              insert (key nbr) visited))"

definition nbrs :: "graph \<Rightarrow> cell \<Rightarrow> cell list" where
  "nbrs g c = find_neighbors g (cell_i c) (cell_j c)"

definition is_goal :: "cell \<Rightarrow> cell \<Rightarrow> bool" where
  "is_goal current goal \<longleftrightarrow> cell_i current = cell_i goal \<and> cell_j current = cell_j goal"

definition expand :: "cell \<Rightarrow> frontier_state \<Rightarrow> frontier_state" where
  "expand current st = foldl (discover current) st (nbrs (fst st) current)"

text \<open>The state before the loop: the graph is reset, the start is marked, logged and pushed.\<close>

definition search_init :: "graph \<Rightarrow> cell \<Rightarrow> frontier_state" where
  "search_init graph start =
     (let g = init_graph graph
      in (g\<lparr>parent := (parent g)(key start \<mapsto> None),
            visited_cells := visited_cells g @ [Cell (cell_i start) (cell_j start)]\<rparr>,
          [start],
          {key start}))"

text \<open>\<^verbatim>\<open>stack.pop()\<close> takes the last element of the list.\<close>

partial_function (option) dfs_loop :: "frontier_state \<Rightarrow> cell \<Rightarrow> (error + graph \<times> cell list) option" where
  "dfs_loop st goal =
     (case st of (g, stack, visited) \<Rightarrow>
        if stack = [] then Some (Inr (g, []))
        else if is_goal (last stack) goal then return_path (last stack) g
        else dfs_loop (expand (last stack) (g, butlast stack, visited)) goal)"

declare dfs_loop.simps [code]

definition depth_first_search :: "graph \<Rightarrow> cell \<Rightarrow> cell \<Rightarrow> (error + graph \<times> cell list) option" where
  "depth_first_search graph start goal = dfs_loop (search_init graph start) goal"

text \<open>\<^verbatim>\<open>queue.popleft()\<close> takes the first element.\<close>

partial_function (option) bfs_loop :: "frontier_state \<Rightarrow> cell \<Rightarrow> (error + graph \<times> cell list) option" where
  "bfs_loop st goal =
     (case st of (g, queue, visited) \<Rightarrow>
        if queue = [] then Some (Inr (g, []))
        else if is_goal (hd queue) goal then return_path (hd queue) g
        else bfs_loop (expand (hd queue) (g, tl queue, visited)) goal)"

declare bfs_loop.simps [code]

definition breadth_first_search :: "graph \<Rightarrow> cell \<Rightarrow> cell \<Rightarrow> (error + graph \<times> cell list) option" where
  "breadth_first_search graph start goal = bfs_loop (search_init graph start) goal"

subsection \<open>A* search\<close>

definition heuristic :: "cell \<Rightarrow> cell \<Rightarrow> int" where
  "heuristic a b = \<bar>cell_i a - cell_i b\<bar> + \<bar>cell_j a - cell_j b\<bar>"

text \<open>
  A heap entry is the tuple \<^verbatim>\<open>(f_cost, g_cost, counter, Cell)\<close>. The costs are Python
  floats that only ever hold integers (\<^verbatim>\<open>0.0\<close>, sums of \<^verbatim>\<open>1.0\<close> and of the integer
  heuristic), so they are modelled as integers.

  \<^verbatim>\<open>heapq\<close> is the standard library's binary heap: \<^verbatim>\<open>heappush\<close> adds an entry and
  \<^verbatim>\<open>heappop\<close> removes and returns the least entry in Python's tuple order, which
  compares the first components, then the second, then the third. The heap is modelled
  by the list of its entries and \<^verbatim>\<open>heappop\<close> by taking out the entry whose
  \<^verbatim>\<open>(f_cost, g_cost, counter)\<close> is least in the lexicographic order; the counter is
  different in every entry, so the cells are never compared.
\<close>

type_synonym entry = "int \<times> int \<times> nat \<times> cell"

definition entry_key :: "entry \<Rightarrow> int \<times> int \<times> nat" where
  "entry_key e = (case e of (f, g, counter, c) \<Rightarrow> (f, g, counter))"

definition heappush :: "entry list \<Rightarrow> entry \<Rightarrow> entry list" where
  "heappush heap e = heap @ [e]"

definition heappop :: "entry list \<Rightarrow> entry \<times> entry list" where
  "heappop heap = (let e = arg_min_list entry_key heap in (e, remove1 e heap))"

type_synonym astar_state = "graph \<times> entry list \<times> (key \<rightharpoonup> int) \<times> nat \<times> key set"

text \<open>The body of the neighbour loop of \<^verbatim>\<open>a_star_search\<close> (lines 158-171).\<close>

definition relax :: "cell \<Rightarrow> int \<Rightarrow> cell \<Rightarrow> astar_state \<Rightarrow> cell \<Rightarrow> astar_state" where
  "relax current g goal st nbr =
     (case st of (graph, open_heap, g_cost, counter, closed) \<Rightarrow>
        if key nbr \<in> closed then st
        else
          let tentative_g = g + 1
          in if (case g_cost (key nbr) of None \<Rightarrow> True | Some old \<Rightarrow> tentative_g < old)
             then (graph\<lparr>parent := (parent graph)(key nbr \<mapsto> Some current)\<rparr>,
                   heappush open_heap (tentative_g + heuristic nbr goal, tentative_g, counter, nbr),
                   g_cost(key nbr \<mapsto> tentative_g),
                   counter + 1,
                   closed)
             else st)"

definition astar_expand :: "cell \<Rightarrow> int \<Rightarrow> cell \<Rightarrow> astar_state \<Rightarrow> astar_state" where
  "astar_expand current g goal st = foldl (relax current g goal) st (nbrs (fst st) current)"

definition astar_init :: "graph \<Rightarrow> cell \<Rightarrow> cell \<Rightarrow> astar_state" where
  "astar_init graph start goal =
     (let g = init_graph graph
      in (g\<lparr>parent := (parent g)(key start \<mapsto> None)\<rparr>,
          heappush [] (0 + heuristic start goal, 0, 0, start),
          [key start \<mapsto> 0],
          1,
          {}))"

partial_function (option) a_star_loop :: "astar_state \<Rightarrow> cell \<Rightarrow> (error + graph \<times> cell list) option" where
  "a_star_loop st goal =
     (case st of (graph, open_heap, g_cost, counter, closed) \<Rightarrow>
        if open_heap = [] then Some (Inr (graph, []))
        else
          (case heappop open_heap of ((f, g, c, current), open_heap') \<Rightarrow>
             if key current \<in> closed then a_star_loop (graph, open_heap', g_cost, counter, closed) goal
             else
               let closed' = insert (key current) closed;
                   graph' = graph\<lparr>visited_cells := visited_cells graph @ [Cell (cell_i current) (cell_j current)]\<rparr>
               in if is_goal current goal then return_path current graph'
                  else a_star_loop (astar_expand current g goal (graph', open_heap', g_cost, counter, closed')) goal))"

declare a_star_loop.simps [code]

definition a_star_search :: "graph \<Rightarrow> cell \<Rightarrow> cell \<Rightarrow> (error + graph \<times> cell list) option" where
  "a_star_search graph start goal = a_star_loop (astar_init graph start goal) goal"

subsection \<open>Paths and reachability\<close>

text \<open>
  \<open>reach_in g s m c\<close>: the cell \<open>c\<close> is reached from \<open>s\<close> by \<open>m\<close> steps, each from a cell to
  one of the neighbours \<open>find_neighbors\<close> returns for it.
\<close>

inductive reach_in :: "graph \<Rightarrow> cell \<Rightarrow> nat \<Rightarrow> cell \<Rightarrow> bool" for g s where
  reach_zero: "reach_in g s 0 s"
| reach_step: "reach_in g s m c \<Longrightarrow> n \<in> set (nbrs g c) \<Longrightarrow> reach_in g s (Suc m) n"

definition reachable :: "graph \<Rightarrow> cell \<Rightarrow> cell set" where
  "reachable g s = {c. \<exists>m. reach_in g s m c}"

text \<open>
  A path is a non-empty list of cells in which each cell is followed by one of its
  neighbours; it has one edge less than it has cells.
\<close>

fun walk :: "graph \<Rightarrow> cell list \<Rightarrow> bool" where
  "walk g [] = False"
| "walk g [c] = True"
| "walk g (c # d # p) = (d \<in> set (nbrs g c) \<and> walk g (d # p))"

definition path_from_to :: "graph \<Rightarrow> cell \<Rightarrow> cell \<Rightarrow> cell list \<Rightarrow> bool" where
  "path_from_to g s t p \<longleftrightarrow> walk g p \<and> hd p = s \<and> last p = t"

subsection \<open>The states a run passes through\<close>

text \<open>
  The states at the head of the \<^verbatim>\<open>while\<close> loop of a run: the initial state, and the state
  after each iteration that did not return. (An iteration returns when the cell popped is
  the goal.)
\<close>

inductive dfs_head :: "graph \<Rightarrow> cell \<Rightarrow> cell \<Rightarrow> frontier_state \<Rightarrow> bool" for graph start goal where
  dfs_head_init: "dfs_head graph start goal (search_init graph start)"
| dfs_head_step: "dfs_head graph start goal (g, stack, visited) \<Longrightarrow> stack \<noteq> [] \<Longrightarrow>
     \<not> is_goal (last stack) goal \<Longrightarrow>
     dfs_head graph start goal (expand (last stack) (g, butlast stack, visited))"

inductive bfs_head :: "graph \<Rightarrow> cell \<Rightarrow> cell \<Rightarrow> frontier_state \<Rightarrow> bool" for graph start goal where
  bfs_head_init: "bfs_head graph start goal (search_init graph start)"
| bfs_head_step: "bfs_head graph start goal (g, queue, visited) \<Longrightarrow> queue \<noteq> [] \<Longrightarrow>
     \<not> is_goal (hd queue) goal \<Longrightarrow>
     bfs_head graph start goal (expand (hd queue) (g, tl queue, visited))"

inductive astar_head :: "graph \<Rightarrow> cell \<Rightarrow> cell \<Rightarrow> astar_state \<Rightarrow> bool" for graph start goal where
  astar_head_init: "astar_head graph start goal (astar_init graph start goal)"
| astar_head_skip: "astar_head graph start goal (gr, open_heap, g_cost, counter, closed) \<Longrightarrow>
     open_heap \<noteq> [] \<Longrightarrow> heappop open_heap = ((f, g, c, current), open_heap') \<Longrightarrow>
     key current \<in> closed \<Longrightarrow>
     astar_head graph start goal (gr, open_heap', g_cost, counter, closed)"
| astar_head_step: "astar_head graph start goal (gr, open_heap, g_cost, counter, closed) \<Longrightarrow>
     open_heap \<noteq> [] \<Longrightarrow> heappop open_heap = ((f, g, c, current), open_heap') \<Longrightarrow>
     key current \<notin> closed \<Longrightarrow> \<not> is_goal current goal \<Longrightarrow>
     astar_head graph start goal
       (astar_expand current g goal
          (gr\<lparr>visited_cells := visited_cells gr @ [Cell (cell_i current) (cell_j current)]\<rparr>,
           open_heap', g_cost, counter, insert (key current) closed))"

text \<open>
  The moments of a run: the states at the head of the loop, and inside an iteration the
  states after the first \<open>n\<close> neighbours of the popped cell have been handled, for every
  \<open>n\<close>.
\<close>

definition dfs_during :: "graph \<Rightarrow> cell \<Rightarrow> cell \<Rightarrow> frontier_state \<Rightarrow> bool" where
  "dfs_during graph start goal st \<longleftrightarrow>
     dfs_head graph start goal st \<or>
     (\<exists>g stack visited n. dfs_head graph start goal (g, stack, visited) \<and> stack \<noteq> [] \<and>
        \<not> is_goal (last stack) goal \<and>
        st = foldl (discover (last stack)) (g, butlast stack, visited) (take n (nbrs g (last stack))))"

definition bfs_during :: "graph \<Rightarrow> cell \<Rightarrow> cell \<Rightarrow> frontier_state \<Rightarrow> bool" where
  "bfs_during graph start goal st \<longleftrightarrow>
     bfs_head graph start goal st \<or>
     (\<exists>g queue visited n. bfs_head graph start goal (g, queue, visited) \<and> queue \<noteq> [] \<and>
        \<not> is_goal (hd queue) goal \<and>
        st = foldl (discover (hd queue)) (g, tl queue, visited) (take n (nbrs g (hd queue))))"

definition astar_during :: "graph \<Rightarrow> cell \<Rightarrow> cell \<Rightarrow> astar_state \<Rightarrow> bool" where
  "astar_during graph start goal st \<longleftrightarrow>
     astar_head graph start goal st \<or>
     (\<exists>gr open_heap g_cost counter closed f g c current open_heap' n.
        astar_head graph start goal (gr, open_heap, g_cost, counter, closed) \<and> open_heap \<noteq> [] \<and>
        heappop open_heap = ((f, g, c, current), open_heap') \<and> key current \<notin> closed \<and>
        \<not> is_goal current goal \<and>
        st = foldl (relax current g goal)
               (gr\<lparr>visited_cells := visited_cells gr @ [Cell (cell_i current) (cell_j current)]\<rparr>,
                open_heap', g_cost, counter, insert (key current) closed)
               (take n (nbrs gr current)))"

text \<open>
  One iteration of the A* loop as a function: \<open>astar_stops\<close> says that the loop returns
  from the state (empty heap, or the popped cell is not closed and is the goal), and
  \<open>astar_next\<close> is the state after an iteration that does not return.
\<close>

definition astar_stops :: "cell \<Rightarrow> astar_state \<Rightarrow> bool" where
  "astar_stops goal st \<longleftrightarrow>
     (case st of (graph, open_heap, g_cost, counter, closed) \<Rightarrow>
        open_heap = [] \<or>
        (case heappop open_heap of ((f, g, c, current), open_heap') \<Rightarrow>
           key current \<notin> closed \<and> is_goal current goal))"

definition astar_next :: "cell \<Rightarrow> astar_state \<Rightarrow> astar_state" where
  "astar_next goal st =
     (case st of (graph, open_heap, g_cost, counter, closed) \<Rightarrow>
        case heappop open_heap of ((f, g, c, current), open_heap') \<Rightarrow>
          if key current \<in> closed then (graph, open_heap', g_cost, counter, closed)
          else astar_expand current g goal
                 (graph\<lparr>visited_cells := visited_cells graph @ [Cell (cell_i current) (cell_j current)]\<rparr>,
                  open_heap', g_cost, counter, insert (key current) closed))"

subsection \<open>The properties the claims speak of\<close>

text \<open>
  The links of a parent dictionary, from a key to the key of its parent cell; the chain
  of links from a key to a root, a key whose entry is \<^verbatim>\<open>None\<close>; and a forest rooted at the
  start: no cycle of links, and the chain of every key that has an entry ends at the start.
\<close>

definition parent_rel :: "(key \<rightharpoonup> cell option) \<Rightarrow> (key \<times> key) set" where
  "parent_rel P = {(k, k'). \<exists>p. P k = Some (Some p) \<and> k' = key p}"

inductive parent_chain :: "(key \<rightharpoonup> cell option) \<Rightarrow> key \<Rightarrow> key \<Rightarrow> bool" for P where
  chain_root: "P k = Some None \<Longrightarrow> parent_chain P k k"
| chain_link: "P k = Some (Some p) \<Longrightarrow> parent_chain P (key p) root \<Longrightarrow> parent_chain P k root"

definition forest_rooted :: "(key \<rightharpoonup> cell option) \<Rightarrow> cell \<Rightarrow> bool" where
  "forest_rooted P start \<longleftrightarrow> acyclic (parent_rel P) \<and> (\<forall>k \<in> dom P. parent_chain P k (key start))"

text \<open>
  Every neighbour returned for the coordinates \<open>(i, j)\<close> lies at Manhattan distance at most
  1 from them: the moves of a 4-connected grid.
\<close>

definition unit_steps :: "graph \<Rightarrow> bool" where
  "unit_steps g \<longleftrightarrow> (\<forall>i j. \<forall>n \<in> set (find_neighbors g i j). \<bar>cell_i n - i\<bar> + \<bar>cell_j n - j\<bar> \<le> 1)"

text \<open>
  The order of the heap entries \<^verbatim>\<open>(f_cost, g_cost, counter, Cell)\<close> written out: lower
  \<open>f\<close>, then lower \<open>g\<close>, then lower counter.
\<close>

definition entry_before :: "entry \<Rightarrow> entry \<Rightarrow> bool" where
  "entry_before e e' \<longleftrightarrow>
     (case e of (f, g, c, x) \<Rightarrow> case e' of (f', g', c', x') \<Rightarrow>
        f < f' \<or> (f = f' \<and> (g < g' \<or> (g = g' \<and> c < c'))))"

subsection \<open>Example grids\<close>

text \<open>
  Neighbour functions of a grid of the given height and width with blocked cells: the
  free cells above, below, left and right, in this order, and for \<open>eight_neighbors\<close>
  the four diagonal ones after them.
\<close>

definition in_grid :: "int \<Rightarrow> int \<Rightarrow> key list \<Rightarrow> key \<Rightarrow> bool" where
  "in_grid height width obstacles k \<longleftrightarrow>
     0 \<le> fst k \<and> fst k < height \<and> 0 \<le> snd k \<and> snd k < width \<and> k \<notin> set obstacles"

definition four_neighbors :: "int \<Rightarrow> int \<Rightarrow> key list \<Rightarrow> int \<Rightarrow> int \<Rightarrow> cell list" where
  "four_neighbors height width obstacles i j =
     map cell_of (filter (in_grid height width obstacles) [(i - 1, j), (i + 1, j), (i, j - 1), (i, j + 1)])"

definition eight_neighbors :: "int \<Rightarrow> int \<Rightarrow> key list \<Rightarrow> int \<Rightarrow> int \<Rightarrow> cell list" where
  "eight_neighbors height width obstacles i j =
     map cell_of (filter (in_grid height width obstacles)
       [(i - 1, j), (i + 1, j), (i, j - 1), (i, j + 1),
        (i - 1, j - 1), (i - 1, j + 1), (i + 1, j - 1), (i + 1, j + 1)])"

definition open_grid :: graph where
  "open_grid = \<lparr>find_neighbors = four_neighbors 3 3 [], parent = Map.empty, visited_cells = []\<rparr>"


definition diagonal_grid :: graph where
  "diagonal_grid = \<lparr>find_neighbors = eight_neighbors 3 4 [(1, 1)], parent = Map.empty, visited_cells = []\<rparr>"

definition maze_grid :: graph where
  "maze_grid = \<lparr>find_neighbors = four_neighbors 4 4 [(0, 0), (1, 2), (2, 1)],
                 parent = Map.empty, visited_cells = []\<rparr>"

text \<open>
  The state of \<open>a_star_search\<close> on \<open>maze_grid\<close> from (0, 2) to (3, 1) after \<open>n\<close>
  iterations of its loop.
\<close>

definition maze_state :: "nat \<Rightarrow> astar_state" where
  "maze_state n = (astar_next (Cell 3 1) ^^ n) (astar_init maze_grid (Cell 0 2) (Cell 3 1))"

text \<open>
  On the open grid from (0, 0): the state inside the first iteration after the first
  neighbour of the start has been handled, in depth-first and breadth-first search
  (\<open>first_discovery\<close>) and in A* with the goal (2, 2) (\<open>first_relaxation\<close>).
\<close>

definition first_discovery :: frontier_state where
  "first_discovery =
     foldl (discover (Cell 0 0)) (fst (search_init open_grid (Cell 0 0)), [], {key (Cell 0 0)})
       (take 1 (nbrs (fst (search_init open_grid (Cell 0 0))) (Cell 0 0)))"

definition first_relaxation :: astar_state where
  "first_relaxation =
     foldl (relax (Cell 0 0) 0 (Cell 2 2))
       ((fst (astar_init open_grid (Cell 0 0) (Cell 2 2)))\<lparr>visited_cells := [Cell 0 0]\<rparr>,
        [], [key (Cell 0 0) \<mapsto> 0], 1, {key (Cell 0 0)})
       (take 1 (nbrs (fst (astar_init open_grid (Cell 0 0) (Cell 2 2))) (Cell 0 0)))"

subsection \<open>Invariants of the loops\<close>

text \<open>
  The parent dictionary \<open>P\<close> is a tree with the depth function \<open>r\<close>: the start has the
  entry \<^verbatim>\<open>None\<close> and depth 0, and every other key with an entry has a parent that has an
  entry, is one less deep, and has the cell among its neighbours.
\<close>

definition tree_inv :: "graph \<Rightarrow> cell \<Rightarrow> (key \<rightharpoonup> cell option) \<Rightarrow> (key \<Rightarrow> nat) \<Rightarrow> bool" where
  "tree_inv g s P r \<longleftrightarrow>
     P (key s) = Some None \<and> r (key s) = 0 \<and>
     (\<forall>k v. P k = Some v \<longrightarrow> k \<noteq> key s \<longrightarrow>
        (\<exists>p. v = Some p \<and> key p \<in> dom P \<and> r k = Suc (r (key p)) \<and> cell_of k \<in> set (nbrs g p)))"

text \<open>
  The depth function after a neighbour has been handled (a newly discovered cell is one
  deeper than the cell it was discovered from), and after a list of neighbours.
\<close>

definition lev_upd :: "cell \<Rightarrow> key set \<Rightarrow> (key \<Rightarrow> nat) \<Rightarrow> cell \<Rightarrow> (key \<Rightarrow> nat)" where
  "lev_upd x V r n = (if key n \<in> V then r else r(key n := Suc (r (key x))))"

fun levs :: "cell \<Rightarrow> key set \<Rightarrow> (key \<Rightarrow> nat) \<Rightarrow> cell list \<Rightarrow> (key \<Rightarrow> nat)" where
  "levs x V r [] = r"
| "levs x V r (n # ns) = levs x (insert (key n) V) (lev_upd x V r n) ns"

text \<open>
  Depth-first and breadth-first search. \<open>fs_common\<close>: the graph still has the neighbour
  function it started with, the keys of the parent dictionary are the visited set, every
  cell of the stack or queue is visited, and the dictionary is a tree. \<open>fs_inv\<close>, at the
  head of the loop: moreover every visited cell that is not on the stack or queue is not
  the goal and has all its neighbours visited. \<open>fs_mid\<close>, inside an iteration that
  handles the neighbours of \<open>x\<close>: the same, except that of \<open>x\<close> only the neighbours in
  \<open>D\<close> are known to be visited.
\<close>

definition fs_common :: "graph \<Rightarrow> cell \<Rightarrow> graph \<Rightarrow> cell list \<Rightarrow> key set \<Rightarrow> (key \<Rightarrow> nat) \<Rightarrow> bool" where
  "fs_common g0 s g fr V r \<longleftrightarrow>
     find_neighbors g = find_neighbors g0 \<and> dom (parent g) = V \<and> (\<forall>c \<in> set fr. key c \<in> V) \<and>
     tree_inv g0 s (parent g) r"

definition fs_inv :: "graph \<Rightarrow> cell \<Rightarrow> cell \<Rightarrow> graph \<Rightarrow> cell list \<Rightarrow> key set \<Rightarrow> (key \<Rightarrow> nat) \<Rightarrow> bool" where
  "fs_inv g0 s t g fr V r \<longleftrightarrow>
     fs_common g0 s g fr V r \<and>
     (\<forall>c. key c \<in> V \<longrightarrow> c \<notin> set fr \<longrightarrow> c \<noteq> t \<and> (\<forall>n \<in> set (nbrs g0 c). key n \<in> V))"

definition fs_mid :: "graph \<Rightarrow> cell \<Rightarrow> cell \<Rightarrow> cell \<Rightarrow> cell set \<Rightarrow> graph \<Rightarrow> cell list \<Rightarrow> key set \<Rightarrow> (key \<Rightarrow> nat) \<Rightarrow> bool" where
  "fs_mid g0 s t x D g fr V r \<longleftrightarrow>
     fs_common g0 s g fr V r \<and> key x \<in> V \<and> x \<noteq> t \<and> (\<forall>n \<in> D. key n \<in> V) \<and>
     (\<forall>c. key c \<in> V \<longrightarrow> c \<notin> set fr \<longrightarrow> c \<noteq> t \<and> (c \<noteq> x \<longrightarrow> (\<forall>n \<in> set (nbrs g0 c). key n \<in> V)))"

text \<open>
  What decreases with every iteration: twice the number of reachable cells not yet
  visited, plus the length of the stack or queue.
\<close>

definition fs_measure :: "cell set \<Rightarrow> cell list \<Rightarrow> key set \<Rightarrow> nat" where
  "fs_measure R fr V = 2 * card (R - cell_of ` V) + length fr"

text \<open>
  Breadth-first search: the queue is sorted by depth and spans at most two depths, the
  depth of a visited cell is at most the length of any path to it, and a path to a cell
  that is not yet expanded has at least as many edges as the head of the queue is deep.
\<close>

definition bfs_lev_inv :: "graph \<Rightarrow> cell \<Rightarrow> cell list \<Rightarrow> key set \<Rightarrow> (key \<Rightarrow> nat) \<Rightarrow> bool" where
  "bfs_lev_inv g0 s Q V r \<longleftrightarrow>
     sorted (map (\<lambda>q. r (key q)) Q) \<and> (\<forall>q \<in> set Q. r (key q) \<le> Suc (r (key (hd Q)))) \<and>
     (\<forall>c m. key c \<in> V \<longrightarrow> reach_in g0 s m c \<longrightarrow> r (key c) \<le> m) \<and>
     (\<forall>c m. reach_in g0 s m c \<longrightarrow> key c \<notin> V \<or> c \<in> set Q \<longrightarrow> Q \<noteq> [] \<longrightarrow> r (key (hd Q)) \<le> m)"

definition bfs_lev_mid :: "graph \<Rightarrow> cell \<Rightarrow> cell \<Rightarrow> cell list \<Rightarrow> key set \<Rightarrow> (key \<Rightarrow> nat) \<Rightarrow> bool" where
  "bfs_lev_mid g0 s x Q V r \<longleftrightarrow>
     sorted (map (\<lambda>q. r (key q)) Q) \<and>
     (\<forall>q \<in> set Q. r (key x) \<le> r (key q) \<and> r (key q) \<le> Suc (r (key x))) \<and>
     (\<forall>c m. key c \<in> V \<longrightarrow> reach_in g0 s m c \<longrightarrow> r (key c) \<le> m) \<and>
     (\<forall>c m. reach_in g0 s m c \<longrightarrow> key c \<notin> V \<or> c \<in> set Q \<or> c = x \<longrightarrow> r (key x) \<le> m)"

text \<open>
  A*. A heap entry is well formed when its \<open>f\<close> is its \<open>g\<close> plus the heuristic of its
  cell, its counter is below the current counter, and its \<open>g\<close> is at least the recorded
  cost of its cell.
\<close>

definition entry_ok :: "cell \<Rightarrow> (key \<rightharpoonup> int) \<Rightarrow> nat \<Rightarrow> entry \<Rightarrow> bool" where
  "entry_ok t G cnt e \<longleftrightarrow> (case e of (f, g, c, x) \<Rightarrow>
      f = g + heuristic x t \<and> c < cnt \<and> (\<exists>g'. G (key x) = Some g' \<and> g' \<le> g))"

text \<open>
  \<open>as_common\<close>: the keys of the parent dictionary are those of \<open>g_cost\<close>; the start has
  cost 0 and parent \<^verbatim>\<open>None\<close>; closed cells have a cost; the heap entries are well formed
  and their counters differ; every cell with a cost that is not closed has a heap entry
  carrying that cost; every cell with a cost other than the start has a closed parent
  whose cost is one less and of which it is a neighbour; the goal is not closed.
\<close>

definition as_common :: "graph \<Rightarrow> cell \<Rightarrow> cell \<Rightarrow> graph \<Rightarrow> entry list \<Rightarrow> (key \<rightharpoonup> int) \<Rightarrow> nat \<Rightarrow> key set \<Rightarrow> bool" where
  "as_common g0 s t gr H G cnt C \<longleftrightarrow>
     find_neighbors gr = find_neighbors g0 \<and>
     dom (parent gr) = dom G \<and>
     G (key s) = Some 0 \<and> parent gr (key s) = Some None \<and>
     C \<subseteq> dom G \<and>
     (\<forall>e \<in> set H. entry_ok t G cnt e) \<and>
     distinct (map (\<lambda>e. fst (snd (snd e))) H) \<and>
     (\<forall>x g. G (key x) = Some g \<longrightarrow> key x \<notin> C \<longrightarrow> (\<exists>c. (g + heuristic x t, g, c, x) \<in> set H)) \<and>
     (\<forall>x g. G (key x) = Some g \<longrightarrow> x \<noteq> s \<longrightarrow>
        0 < g \<and> (\<exists>p. parent gr (key x) = Some (Some p) \<and> key p \<in> C \<and> G (key p) = Some (g - 1) \<and>
               x \<in> set (nbrs g0 p))) \<and>
     key t \<notin> C"

text \<open>
  The edge from \<open>u\<close> to \<open>v\<close> has been relaxed: \<open>v\<close> is closed or its recorded cost is at
  most one more than that of \<open>u\<close>. At the head of the loop (\<open>as_inv\<close>) the edges out of
  every closed cell are relaxed; inside the iteration that expands \<open>x\<close> (\<open>as_mid\<close>),
  those of \<open>x\<close> into \<open>D\<close> and those of every other closed cell.
\<close>

definition relaxed :: "graph \<Rightarrow> (key \<rightharpoonup> int) \<Rightarrow> key set \<Rightarrow> cell \<Rightarrow> cell \<Rightarrow> bool" where
  "relaxed g0 G C u v \<longleftrightarrow> key v \<in> C \<or> (\<exists>gv gu. G (key v) = Some gv \<and> G (key u) = Some gu \<and> gv \<le> gu + 1)"

definition as_inv :: "graph \<Rightarrow> cell \<Rightarrow> cell \<Rightarrow> graph \<Rightarrow> entry list \<Rightarrow> (key \<rightharpoonup> int) \<Rightarrow> nat \<Rightarrow> key set \<Rightarrow> bool" where
  "as_inv g0 s t gr H G cnt C \<longleftrightarrow>
     as_common g0 s t gr H G cnt C \<and>
     (key s \<in> C \<or> (\<forall>e \<in> set H. snd (snd (snd e)) = s)) \<and>
     (\<forall>u. key u \<in> C \<longrightarrow> (\<forall>v \<in> set (nbrs g0 u). relaxed g0 G C u v))"

definition as_mid :: "graph \<Rightarrow> cell \<Rightarrow> cell \<Rightarrow> cell \<Rightarrow> int \<Rightarrow> cell set \<Rightarrow> graph \<Rightarrow> entry list \<Rightarrow> (key \<rightharpoonup> int) \<Rightarrow> nat \<Rightarrow> key set \<Rightarrow> bool" where
  "as_mid g0 s t x gx D gr H G cnt C \<longleftrightarrow>
     as_common g0 s t gr H G cnt C \<and>
     key s \<in> C \<and> key x \<in> C \<and> G (key x) = Some gx \<and>
     (\<forall>v \<in> D. relaxed g0 G C x v) \<and>
     (\<forall>u. key u \<in> C \<longrightarrow> u \<noteq> x \<longrightarrow> (\<forall>v \<in> set (nbrs g0 u). relaxed g0 G C u v))"

text \<open>
  What decreases with every iteration in the lexicographic order: the number of reachable
  cells not yet closed, then the length of the heap.
\<close>

definition as_measure :: "cell set \<Rightarrow> astar_state \<Rightarrow> nat \<times> nat" where
  "as_measure R st = (case st of (gr, H, G, cnt, C) \<Rightarrow> (card (R - cell_of ` C), length H))"

text \<open>
  The heuristic is consistent when it drops by at most 1 along every edge. Then
  (\<open>as_opt\<close>) the recorded cost of a closed cell is at most the length of any path to it.
\<close>

definition consistent :: "graph \<Rightarrow> cell \<Rightarrow> bool" where
  "consistent g0 t \<longleftrightarrow> (\<forall>c. \<forall>n \<in> set (nbrs g0 c). heuristic c t \<le> 1 + heuristic n t)"

definition as_opt :: "graph \<Rightarrow> cell \<Rightarrow> (key \<rightharpoonup> int) \<Rightarrow> key set \<Rightarrow> bool" where
  "as_opt g0 s G C \<longleftrightarrow> (\<forall>u m. key u \<in> C \<longrightarrow> reach_in g0 s m u \<longrightarrow> the (G (key u)) \<le> int m)"

section \<open>Proofs\<close>

subsection \<open>Keys, paths and the path reconstructor\<close>

lemma key_cell_of [simp]: "key (cell_of k) = k"
  by (simp add: key_def cell_of_def)

lemma cell_of_key [simp]: "cell_of (key c) = c"
  by (simp add: key_def cell_of_def)

lemma key_eq_iff [simp]: "key a = key b \<longleftrightarrow> a = b"
  by (metis cell_of_key)

lemma is_goal_iff: "is_goal c t \<longleftrightarrow> c = t"
  by (cases c; cases t) (simp add: is_goal_def)

lemma tree_inv_root: "tree_inv g s P r \<Longrightarrow> P (key s) = Some None \<and> r (key s) = 0"
  unfolding tree_inv_def by blast

lemma tree_inv_link:
  "tree_inv g s P r \<Longrightarrow> P (key c) = Some v \<Longrightarrow> c \<noteq> s \<Longrightarrow>
   \<exists>p. v = Some p \<and> key p \<in> dom P \<and> r (key c) = Suc (r (key p)) \<and> c \<in> set (nbrs g p)"
  unfolding tree_inv_def by (metis cell_of_key key_eq_iff)

lemma walk_snoc: "walk g q \<Longrightarrow> c \<in> set (nbrs g (last q)) \<Longrightarrow> walk g (q @ [c])"
  by (induction g q rule: walk.induct) auto

lemma path_from_to_snoc:
  "path_from_to g s p q \<Longrightarrow> c \<in> set (nbrs g p) \<Longrightarrow> path_from_to g s c (q @ [c])"
proof -
  assume a: "path_from_to g s p q" "c \<in> set (nbrs g p)"
  then have "q \<noteq> []" by (auto simp: path_from_to_def)
  with a show ?thesis by (simp add: path_from_to_def walk_snoc hd_append)
qed

lemma trace_loop_tree:
  assumes T: "tree_inv g0 s (parent g) r" and N: "find_neighbors g = find_neighbors g0"
  shows "key c \<in> dom (parent g) \<Longrightarrow>
    \<exists>p. trace_loop g c acc = Some (Inr (p @ acc)) \<and> path_from_to g0 s c p \<and> length p = Suc (r (key c))"
proof (induction "r (key c)" arbitrary: c acc)
  case 0
  have "c = s"
  proof (rule ccontr)
    assume "c \<noteq> s"
    from 0(2) obtain v where "parent g (key c) = Some v" by auto
    from tree_inv_link[OF T this \<open>c \<noteq> s\<close>] 0(1) show False by auto
  qed
  with T have "trace_loop g c acc = Some (Inr ([s] @ acc))"
    by (subst trace_loop.simps) (simp add: tree_inv_def)
  with \<open>c = s\<close> T show ?case
    by (intro exI[of _ "[s]"]) (simp add: path_from_to_def tree_inv_def)
next
  case (Suc m)
  from Suc.hyps(2) tree_inv_root[OF T] have ns: "c \<noteq> s" by auto
  from Suc.prems obtain v where v: "parent g (key c) = Some v" by auto
  with T ns obtain p where p: "v = Some p" "key p \<in> dom (parent g)" "r (key c) = Suc (r (key p))"
      "c \<in> set (nbrs g0 p)"
    using tree_inv_link by blast
  with Suc.hyps(2) have "m = r (key p)" by simp
  from Suc.hyps(1)[OF this p(2), of "c # acc"] obtain q where
    q: "trace_loop g p (c # acc) = Some (Inr (q @ c # acc))" "path_from_to g0 s p q" "length q = Suc (r (key p))"
    by auto
  have "trace_loop g c acc = Some (Inr ((q @ [c]) @ acc))"
    by (subst trace_loop.simps) (simp add: v p(1) q(1))
  moreover have "path_from_to g0 s c (q @ [c])"
    using path_from_to_snoc[OF q(2) p(4)] .
  ultimately show ?case using q(3) p(3) by (intro exI[of _ "q @ [c]"]) simp
qed

subsection \<open>Depth-first and breadth-first search: the invariant\<close>

lemma tree_inv_fresh:
  assumes "tree_inv g0 s P r" "key n \<notin> dom P" "key x \<in> dom P" "n \<in> set (nbrs g0 x)"
  shows "tree_inv g0 s (P(key n \<mapsto> Some x)) (r(key n := Suc (r (key x))))"
proof -
  from assms(1) have root: "P (key s) = Some None" "r (key s) = 0"
    by (simp_all add: tree_inv_root)
  with assms(2) have ns: "n \<noteq> s" by auto
  from assms(2,3) have nx: "n \<noteq> x" by auto
  show ?thesis
    unfolding tree_inv_def
  proof (intro conjI allI impI)
    fix k v assume kv: "(P(key n \<mapsto> Some x)) k = Some v" "k \<noteq> key s"
    show "\<exists>p. v = Some p \<and> key p \<in> dom (P(key n \<mapsto> Some x)) \<and>
            (r(key n := Suc (r (key x)))) k = Suc ((r(key n := Suc (r (key x)))) (key p)) \<and>
            cell_of k \<in> set (nbrs g0 p)"
    proof (cases "k = key n")
      case True
      with kv assms(3,4) nx show ?thesis by auto
    next
      case False
      with kv have "P (key (cell_of k)) = Some v" "cell_of k \<noteq> s" by auto
      from tree_inv_link[OF assms(1) this] obtain p where
        p: "v = Some p" "key p \<in> dom P" "r k = Suc (r (key p))" "cell_of k \<in> set (nbrs g0 p)"
        by auto
      with assms(2) have "key p \<noteq> key n" by auto
      with p False show ?thesis by auto
    qed
  qed (use root ns in auto)
qed

lemma fs_mid_discover:
  assumes "fs_mid g0 s t x D g fr V r" "n \<in> set (nbrs g0 x)"
    and "discover x (g, fr, V) n = (g', fr', V')"
  shows "fs_mid g0 s t x (insert n D) g' fr' V' (lev_upd x V r n)"
proof (cases "key n \<in> V")
  case True
  with assms show ?thesis by (auto simp: discover_def fs_mid_def lev_upd_def)
next
  case False
  with assms(3) have eq: "g' = g\<lparr>parent := (parent g)(key n \<mapsto> Some x),
                visited_cells := visited_cells g @ [n]\<rparr>" "fr' = fr @ [n]" "V' = insert (key n) V"
    by (auto simp: discover_def)
  from assms(1) have c: "fs_common g0 s g fr V r" by (simp add: fs_mid_def)
  then have "tree_inv g0 s (parent g) r" "dom (parent g) = V" by (simp_all add: fs_common_def)
  with False assms have "tree_inv g0 s ((parent g)(key n \<mapsto> Some x)) (r(key n := Suc (r (key x))))"
    by (intro tree_inv_fresh) (auto simp: fs_mid_def)
  with c False have "fs_common g0 s g' fr' V' (lev_upd x V r n)"
    by (auto simp: fs_common_def eq lev_upd_def)
  with assms(1) False show ?thesis
    unfolding fs_mid_def eq by auto
qed

lemma fs_mid_fold:
  assumes "fs_mid g0 s t x D g fr V r" "set ns \<subseteq> set (nbrs g0 x)"
    and "foldl (discover x) (g, fr, V) ns = (g', fr', V')"
  shows "fs_mid g0 s t x (D \<union> set ns) g' fr' V' (levs x V r ns)"
  using assms
proof (induction ns arbitrary: D g fr V r)
  case Nil
  then show ?case by simp
next
  case (Cons n ns)
  obtain g1 fr1 V1 where d: "discover x (g, fr, V) n = (g1, fr1, V1)"
    by (cases "discover x (g, fr, V) n") auto
  have V1: "V1 = insert (key n) V"
    using d by (auto simp: discover_def split: if_splits)
  from Cons.prems have "fs_mid g0 s t x (insert n D) g1 fr1 V1 (lev_upd x V r n)"
    by (intro fs_mid_discover[OF _ _ d]) auto
  from Cons.IH[OF this] Cons.prems d show ?case by (simp add: V1)
qed

lemma fs_inv_pop:
  assumes "fs_inv g0 s t g fr V r" "x \<in> set fr" "x \<noteq> t" "set fr' \<subseteq> set fr" "set fr \<subseteq> insert x (set fr')"
  shows "fs_mid g0 s t x {} g fr' V r"
proof -
  from assms(1) have c: "fs_common g0 s g fr V r"
    and d: "\<And>c. key c \<in> V \<Longrightarrow> c \<notin> set fr \<Longrightarrow> c \<noteq> t \<and> (\<forall>n \<in> set (nbrs g0 c). key n \<in> V)"
    by (simp_all add: fs_inv_def)
  from c assms(4) have c': "fs_common g0 s g fr' V r"
    unfolding fs_common_def by blast
  from c assms(2) have "key x \<in> V" unfolding fs_common_def by blast
  moreover have "c \<noteq> t \<and> (c \<noteq> x \<longrightarrow> (\<forall>n \<in> set (nbrs g0 c). key n \<in> V))"
    if "key c \<in> V" "c \<notin> set fr'" for c
    using d[of c] that assms(3,5) by blast
  ultimately show ?thesis using c' assms(3) unfolding fs_mid_def by blast
qed

lemma fs_mid_finish:
  assumes "fs_mid g0 s t x (set (nbrs g0 x)) g fr V r"
  shows "fs_inv g0 s t g fr V r"
  using assms unfolding fs_inv_def fs_mid_def by auto

lemma fs_inv_init:
  assumes "search_init graph start = (g, fr, V)"
  shows "fs_inv graph start goal g fr V (\<lambda>_. 0)"
  using assms
  by (auto simp: search_init_def init_graph_def Let_def fs_inv_def fs_common_def tree_inv_def)

lemma nbrs_cong: "find_neighbors g = find_neighbors g0 \<Longrightarrow> nbrs g c = nbrs g0 c"
  by (simp add: nbrs_def)

lemma fs_inv_expand:
  assumes I: "fs_inv g0 s t g fr V r" and x: "x \<in> set fr" "\<not> is_goal x t"
    and fr': "set fr' \<subseteq> set fr" "set fr \<subseteq> insert x (set fr')"
    and e: "expand x (g, fr', V) = (g', fr'', V')"
  shows "fs_inv g0 s t g' fr'' V' (levs x V r (nbrs g0 x))"
proof -
  from I have N: "nbrs g x = nbrs g0 x"
    by (intro nbrs_cong) (simp add: fs_inv_def fs_common_def)
  from x have "x \<noteq> t" by (simp add: is_goal_iff)
  from fs_inv_pop[OF I x(1) this fr'] have "fs_mid g0 s t x {} g fr' V r" .
  from fs_mid_fold[OF this subset_refl, of g' fr'' V'] e N
  have "fs_mid g0 s t x (set (nbrs g0 x)) g' fr'' V' (levs x V r (nbrs g0 x))"
    by (simp add: expand_def)
  then show ?thesis by (rule fs_mid_finish)
qed

lemma dfs_head_inv:
  "dfs_head g0 s t st \<Longrightarrow> \<exists>r. fs_inv g0 s t (fst st) (fst (snd st)) (snd (snd st)) r"
proof (induction rule: dfs_head.induct)
  case dfs_head_init
  show ?case
    using fs_inv_init[of g0 s "fst (search_init g0 s)" "fst (snd (search_init g0 s))" "snd (snd (search_init g0 s))" t]
    by auto
next
  case (dfs_head_step g stack visited)
  then obtain r where r: "fs_inv g0 s t g stack visited r" by auto
  obtain g' fr' V' where e: "expand (last stack) (g, butlast stack, visited) = (g', fr', V')"
    by (cases "expand (last stack) (g, butlast stack, visited)") auto
  have "fs_inv g0 s t g' fr' V' (levs (last stack) visited r (nbrs g0 (last stack)))"
  proof (rule fs_inv_expand[OF r _ _ _ _ e])
    show "last stack \<in> set stack" using dfs_head_step.hyps(2) by simp
    show "\<not> is_goal (last stack) t" by fact
    show "set (butlast stack) \<subseteq> set stack" by (auto dest: in_set_butlastD)
    show "set stack \<subseteq> insert (last stack) (set (butlast stack))"
    proof -
      have "set stack = set (butlast stack @ [last stack])"
        using dfs_head_step.hyps(2) by simp
      then show ?thesis by auto
    qed
  qed
  with e show ?case by auto
qed

lemma bfs_head_fs_inv:
  "bfs_head g0 s t st \<Longrightarrow> \<exists>r. fs_inv g0 s t (fst st) (fst (snd st)) (snd (snd st)) r"
proof (induction rule: bfs_head.induct)
  case bfs_head_init
  show ?case
    using fs_inv_init[of g0 s "fst (search_init g0 s)" "fst (snd (search_init g0 s))" "snd (snd (search_init g0 s))" t]
    by auto
next
  case (bfs_head_step g queue visited)
  then obtain r where r: "fs_inv g0 s t g queue visited r" by auto
  obtain g' fr' V' where e: "expand (hd queue) (g, tl queue, visited) = (g', fr', V')"
    by (cases "expand (hd queue) (g, tl queue, visited)") auto
  have "fs_inv g0 s t g' fr' V' (levs (hd queue) visited r (nbrs g0 (hd queue)))"
  proof (rule fs_inv_expand[OF r _ _ _ _ e])
    show "hd queue \<in> set queue" using bfs_head_step.hyps(2) by simp
    show "\<not> is_goal (hd queue) t" by fact
    show "set (tl queue) \<subseteq> set queue" using bfs_head_step.hyps(2) by (cases queue) auto
    show "set queue \<subseteq> insert (hd queue) (set (tl queue))"
      using bfs_head_step.hyps(2) by (cases queue) auto
  qed
  with e show ?case by auto
qed

lemma dfs_loop_exit_aux:
  "dfs_loop st t = Some res \<Longrightarrow> dfs_head g0 s t st \<longrightarrow>
     (\<exists>g stack V. dfs_head g0 s t (g, stack, V) \<and>
           (stack = [] \<longrightarrow> res = Inr (g, [])) \<and>
           (stack \<noteq> [] \<longrightarrow> is_goal (last stack) t \<and> return_path (last stack) g = Some res))"
proof (induction st t res rule: dfs_loop.raw_induct[rotated 1, consumes 1])
  case (1 loop st goal res)
  obtain g stack V where st: "st = (g, stack, V)" by (cases st) auto
  show ?case
  proof (intro impI)
    assume h: "dfs_head g0 s goal st"
    show "\<exists>g stack V. dfs_head g0 s goal (g, stack, V) \<and>
           (stack = [] \<longrightarrow> res = Inr (g, [])) \<and>
           (stack \<noteq> [] \<longrightarrow> is_goal (last stack) goal \<and> return_path (last stack) g = Some res)"
    proof (cases "stack = [] \<or> is_goal (last stack) goal")
      case True
      with 1(2) h show ?thesis unfolding st
        by (intro exI[of _ g] exI[of _ stack] exI[of _ V]) (auto split: if_splits)
    next
      case False
      with 1(2) have "loop (expand (last stack) (g, butlast stack, V)) goal = Some res"
        by (simp add: st)
      moreover from False h have "dfs_head g0 s goal (expand (last stack) (g, butlast stack, V))"
        unfolding st by (intro dfs_head_step) auto
      ultimately show ?thesis using 1(1) by blast
    qed
  qed
qed

lemma dfs_loop_exit:
  assumes "dfs_loop st t = Some res" "dfs_head g0 s t st"
  shows "\<exists>g stack V. dfs_head g0 s t (g, stack, V) \<and>
           (stack = [] \<longrightarrow> res = Inr (g, [])) \<and>
           (stack \<noteq> [] \<longrightarrow> is_goal (last stack) t \<and> return_path (last stack) g = Some res)"
  using dfs_loop_exit_aux[OF assms(1)] assms(2) by blast

lemma bfs_loop_exit_aux:
  "bfs_loop st t = Some res \<Longrightarrow> bfs_head g0 s t st \<longrightarrow>
     (\<exists>g queue V. bfs_head g0 s t (g, queue, V) \<and>
           (queue = [] \<longrightarrow> res = Inr (g, [])) \<and>
           (queue \<noteq> [] \<longrightarrow> is_goal (hd queue) t \<and> return_path (hd queue) g = Some res))"
proof (induction st t res rule: bfs_loop.raw_induct[rotated 1, consumes 1])
  case (1 loop st goal res)
  obtain g queue V where st: "st = (g, queue, V)" by (cases st) auto
  show ?case
  proof (intro impI)
    assume h: "bfs_head g0 s goal st"
    show "\<exists>g queue V. bfs_head g0 s goal (g, queue, V) \<and>
           (queue = [] \<longrightarrow> res = Inr (g, [])) \<and>
           (queue \<noteq> [] \<longrightarrow> is_goal (hd queue) goal \<and> return_path (hd queue) g = Some res)"
    proof (cases "queue = [] \<or> is_goal (hd queue) goal")
      case True
      with 1(2) h show ?thesis unfolding st
        by (intro exI[of _ g] exI[of _ queue] exI[of _ V]) (auto split: if_splits)
    next
      case False
      with 1(2) have "loop (expand (hd queue) (g, tl queue, V)) goal = Some res"
        by (simp add: st)
      moreover from False h have "bfs_head g0 s goal (expand (hd queue) (g, tl queue, V))"
        unfolding st by (intro bfs_head_step) auto
      ultimately show ?thesis using 1(1) by blast
    qed
  qed
qed

lemma bfs_loop_exit:
  assumes "bfs_loop st t = Some res" "bfs_head g0 s t st"
  shows "\<exists>g queue V. bfs_head g0 s t (g, queue, V) \<and>
           (queue = [] \<longrightarrow> res = Inr (g, [])) \<and>
           (queue \<noteq> [] \<longrightarrow> is_goal (hd queue) t \<and> return_path (hd queue) g = Some res)"
  using bfs_loop_exit_aux[OF assms(1)] assms(2) by blast

subsection \<open>Depth-first and breadth-first search: termination\<close>

lemma tree_reach:
  assumes T: "tree_inv g0 s P r"
  shows "key c \<in> dom P \<Longrightarrow> reach_in g0 s (r (key c)) c"
proof (induction "r (key c)" arbitrary: c)
  case 0
  have "c = s"
  proof (rule ccontr)
    assume "c \<noteq> s"
    from 0(2) obtain v where "P (key c) = Some v" by auto
    from tree_inv_link[OF T this \<open>c \<noteq> s\<close>] 0(1) show False by auto
  qed
  with 0 show ?case by (simp add: reach_zero)
next
  case (Suc m)
  from Suc.hyps(2) tree_inv_root[OF T] have ns: "c \<noteq> s" by auto
  from Suc.prems obtain v where v: "P (key c) = Some v" by auto
  from tree_inv_link[OF T v ns] obtain p where
    p: "v = Some p" "key p \<in> dom P" "r (key c) = Suc (r (key p))" "c \<in> set (nbrs g0 p)"
    by blast
  with Suc.hyps(2) have "m = r (key p)" by simp
  from Suc.hyps(1)[OF this p(2)] p(4) have "reach_in g0 s (Suc (r (key p))) c"
    by (rule reach_step)
  with p(3) show ?case by simp
qed

lemma reachable_start: "s \<in> reachable g s"
  unfolding reachable_def using reach_zero by blast

lemma reachable_step: "c \<in> reachable g s \<Longrightarrow> n \<in> set (nbrs g c) \<Longrightarrow> n \<in> reachable g s"
  unfolding reachable_def using reach_step by blast

lemma discover_measure:
  assumes "finite R" "n \<in> R" "discover x (g, fr, V) n = (g', fr', V')"
  shows "fs_measure R fr' V' \<le> fs_measure R fr V"
proof (cases "key n \<in> V")
  case True
  with assms(3) show ?thesis by (auto simp: discover_def)
next
  case False
  with assms(3) have eq: "fr' = fr @ [n]" "V' = insert (key n) V"
    by (auto simp: discover_def)
  from False have nin: "n \<in> R - cell_of ` V" using assms(2) by auto
  have "R - cell_of ` V' = (R - cell_of ` V) - {n}" by (auto simp: eq)
  then have "card (R - cell_of ` V') = card (R - cell_of ` V) - 1"
    using nin by simp
  moreover have "card (R - cell_of ` V) > 0"
    using nin assms(1) by (metis card_gt_0_iff empty_iff finite_Diff)
  ultimately show ?thesis by (simp add: fs_measure_def eq)
qed

lemma fold_discover_measure:
  assumes "finite R" "set ns \<subseteq> R" "foldl (discover x) (g, fr, V) ns = (g', fr', V')"
  shows "fs_measure R fr' V' \<le> fs_measure R fr V"
  using assms(2,3)
proof (induction ns arbitrary: g fr V)
  case Nil
  then show ?case by simp
next
  case (Cons n ns)
  obtain g1 fr1 V1 where d: "discover x (g, fr, V) n = (g1, fr1, V1)"
    by (cases "discover x (g, fr, V) n") auto
  from Cons.prems have "fs_measure R fr1 V1 \<le> fs_measure R fr V"
    by (intro discover_measure[OF assms(1) _ d]) auto
  moreover from Cons.IH[of g1 fr1 V1] Cons.prems d have "fs_measure R fr' V' \<le> fs_measure R fr1 V1"
    by simp
  ultimately show ?case by simp
qed

lemma fs_inv_reachable:
  assumes "fs_inv g0 s t g fr V r" "key c \<in> V"
  shows "c \<in> reachable g0 s"
proof -
  from assms have "tree_inv g0 s (parent g) r" "key c \<in> dom (parent g)"
    by (simp_all add: fs_inv_def fs_common_def)
  from tree_reach[OF this] show ?thesis unfolding reachable_def by blast
qed

lemma fs_inv_return_path:
  assumes "fs_inv g0 s t g fr V r" "key c \<in> V"
  shows "\<exists>p. return_path c g = Some (Inr (g, p)) \<and> path_from_to g0 s c p \<and> length p = Suc (r (key c))"
proof -
  from assms have "tree_inv g0 s (parent g) r" "find_neighbors g = find_neighbors g0" "key c \<in> dom (parent g)"
    by (simp_all add: fs_inv_def fs_common_def)
  from trace_loop_tree[OF this, of "[]"] show ?thesis
    by (auto simp: return_path_def trace_path_def)
qed

lemma expand_measure:
  assumes fin: "finite (reachable g0 s)" and I: "fs_inv g0 s t g fr V r" and x: "x \<in> set fr"
    and e: "expand x (g, fr', V) = (g', fr'', V')"
  shows "fs_measure (reachable g0 s) fr'' V' \<le> fs_measure (reachable g0 s) fr' V"
proof -
  from I have N: "nbrs g x = nbrs g0 x"
    by (intro nbrs_cong) (simp add: fs_inv_def fs_common_def)
  from I x have "key x \<in> V" by (simp add: fs_inv_def fs_common_def)
  from fs_inv_reachable[OF I this] have "set (nbrs g0 x) \<subseteq> reachable g0 s"
    using reachable_step by blast
  from fold_discover_measure[OF fin this, of x g fr' V g' fr'' V'] e N show ?thesis
    by (simp add: expand_def)
qed

lemma dfs_terminates:
  assumes fin: "finite (reachable g0 s)"
  shows "dfs_head g0 s t (g, fr, V) \<Longrightarrow> \<exists>res. dfs_loop (g, fr, V) t = Some (Inr res)"
proof (induction "fs_measure (reachable g0 s) fr V" arbitrary: g fr V rule: less_induct)
  case less
  from dfs_head_inv[OF less.prems] obtain r where I: "fs_inv g0 s t g fr V r" by auto
  show ?case
  proof (cases "fr = []")
    case True
    then show ?thesis by (subst dfs_loop.simps) simp
  next
    case ne: False
    show ?thesis
    proof (cases "is_goal (last fr) t")
      case True
      from I ne have "key (last fr) \<in> V" by (simp add: fs_inv_def fs_common_def)
      from fs_inv_return_path[OF I this] ne True show ?thesis
        by (subst dfs_loop.simps) auto
    next
      case False
      obtain g' fr' V' where e: "expand (last fr) (g, butlast fr, V) = (g', fr', V')"
        by (cases "expand (last fr) (g, butlast fr, V)") auto
      from ne have "last fr \<in> set fr" by simp
      from ne have "0 < length fr" by simp
      with expand_measure[OF fin I \<open>last fr \<in> set fr\<close> e]
      have "fs_measure (reachable g0 s) fr' V' < fs_measure (reachable g0 s) fr V"
        unfolding fs_measure_def length_butlast by linarith
      moreover have "dfs_head g0 s t (g', fr', V')"
        using dfs_head_step[OF less.prems ne False] e by simp
      ultimately have "\<exists>res. dfs_loop (g', fr', V') t = Some (Inr res)"
        by (rule less.hyps)
      with ne False e show ?thesis by (subst dfs_loop.simps) simp
    qed
  qed
qed

lemma bfs_terminates:
  assumes fin: "finite (reachable g0 s)"
  shows "bfs_head g0 s t (g, fr, V) \<Longrightarrow> \<exists>res. bfs_loop (g, fr, V) t = Some (Inr res)"
proof (induction "fs_measure (reachable g0 s) fr V" arbitrary: g fr V rule: less_induct)
  case less
  from bfs_head_fs_inv[OF less.prems] obtain r where I: "fs_inv g0 s t g fr V r" by auto
  show ?case
  proof (cases "fr = []")
    case True
    then show ?thesis by (subst bfs_loop.simps) simp
  next
    case ne: False
    show ?thesis
    proof (cases "is_goal (hd fr) t")
      case True
      from I ne have "key (hd fr) \<in> V" by (simp add: fs_inv_def fs_common_def)
      from fs_inv_return_path[OF I this] ne True show ?thesis
        by (subst bfs_loop.simps) auto
    next
      case False
      obtain g' fr' V' where e: "expand (hd fr) (g, tl fr, V) = (g', fr', V')"
        by (cases "expand (hd fr) (g, tl fr, V)") auto
      from ne have "hd fr \<in> set fr" by simp
      from ne have "0 < length fr" by simp
      with expand_measure[OF fin I \<open>hd fr \<in> set fr\<close> e]
      have "fs_measure (reachable g0 s) fr' V' < fs_measure (reachable g0 s) fr V"
        unfolding fs_measure_def length_tl by linarith
      moreover have "bfs_head g0 s t (g', fr', V')"
        using bfs_head_step[OF less.prems ne False] e by simp
      ultimately have "\<exists>res. bfs_loop (g', fr', V') t = Some (Inr res)"
        by (rule less.hyps)
      with ne False e show ?thesis by (subst bfs_loop.simps) simp
    qed
  qed
qed

subsection \<open>A*: the invariant\<close>

lemma as_common_zero:
  assumes "as_common g0 s t gr H G cnt C" "G (key x) = Some g"
  shows "0 \<le> g"
proof (cases "x = s")
  case True
  with assms show ?thesis by (simp add: as_common_def)
next
  case False
  with assms have "0 < g" unfolding as_common_def by blast
  then show ?thesis by simp
qed

lemma as_mid_relax:
  assumes M: "as_mid g0 s t x gx D gr H G cnt C" and n: "n \<in> set (nbrs g0 x)"
    and R: "relax x gx t (gr, H, G, cnt, C) n = (gr', H', G', cnt', C')"
  shows "as_mid g0 s t x gx (insert n D) gr' H' G' cnt' C'"
proof -
  from M have Cm: "as_common g0 s t gr H G cnt C" and sC: "key s \<in> C" and xC: "key x \<in> C"
    and Gx: "G (key x) = Some gx" and Dr: "\<forall>v \<in> D. relaxed g0 G C x v"
    and Ur: "\<And>u v. key u \<in> C \<Longrightarrow> u \<noteq> x \<Longrightarrow> v \<in> set (nbrs g0 u) \<Longrightarrow> relaxed g0 G C u v"
    unfolding as_mid_def by blast+
  have gx0: "0 \<le> gx" using as_common_zero[OF Cm Gx] .
  let ?upd = "key n \<notin> C \<and> (case G (key n) of None \<Rightarrow> True | Some old \<Rightarrow> gx + 1 < old)"
  show ?thesis
  proof (cases ?upd)
    case False
    with R have eq: "gr' = gr" "H' = H" "G' = G" "cnt' = cnt" "C' = C"
      by (auto simp: relax_def Let_def split: if_splits)
    from False Gx have "relaxed g0 G C x n"
      unfolding relaxed_def by (auto split: option.splits)
    with M show ?thesis unfolding eq as_mid_def by auto
  next
    case True
    let ?e = "(gx + 1 + heuristic n t, gx + 1, cnt, n)"
    from True R have eq: "gr' = gr\<lparr>parent := (parent gr)(key n \<mapsto> Some x)\<rparr>" "H' = H @ [?e]"
      "G' = G(key n \<mapsto> gx + 1)" "cnt' = Suc cnt" "C' = C"
      by (auto simp: relax_def Let_def heappush_def)
    from True have nC: "key n \<notin> C" by simp
    with sC xC have ns: "n \<noteq> s" and nx: "n \<noteq> x" by auto
    have less: "\<And>old. G (key n) = Some old \<Longrightarrow> gx + 1 < old"
      using True by auto
    have GC: "\<And>u. key u \<in> C \<Longrightarrow> G' (key u) = G (key u)"
      using nC by (auto simp: eq)
    have mono: "\<And>v gv. G (key v) = Some gv \<Longrightarrow> \<exists>gv'. G' (key v) = Some gv' \<and> gv' \<le> gv"
      using less by (auto simp: eq)
    have rel: "relaxed g0 G' C u v" if "relaxed g0 G C u v" "key u \<in> C" for u v
    proof -
      from that(1) consider "key v \<in> C" | gv gu where "G (key v) = Some gv" "G (key u) = Some gu" "gv \<le> gu + 1"
        unfolding relaxed_def by blast
      then show ?thesis
      proof cases
        case 1
        then show ?thesis by (simp add: relaxed_def)
      next
        case 2
        from mono[OF 2(1)] obtain gv' where "G' (key v) = Some gv'" "gv' \<le> gv" by blast
        with 2 GC[OF that(2)] show ?thesis unfolding relaxed_def by force
      qed
    qed
    have c1: "\<forall>e \<in> set H'. entry_ok t G' cnt' e"
    proof
      fix e assume "e \<in> set H'"
      then consider "e = ?e" | "e \<in> set H" by (auto simp: eq)
      then show "entry_ok t G' cnt' e"
      proof cases
        case 1
        then show ?thesis by (simp add: entry_ok_def eq)
      next
        case 2
        obtain f g c y where e: "e = (f, g, c, y)" by (cases e) auto
        from 2 Cm have "entry_ok t G cnt e" unfolding as_common_def by blast
        with e obtain g' where "f = g + heuristic y t" "c < cnt" "G (key y) = Some g'" "g' \<le> g"
          by (auto simp: entry_ok_def)
        with mono[OF this(3)] show ?thesis
          unfolding e entry_ok_def eq(4) by force
      qed
    qed
    have c2: "distinct (map (\<lambda>e. fst (snd (snd e))) H')"
    proof -
      have "\<forall>e \<in> set H. fst (snd (snd e)) < cnt"
        using Cm unfolding as_common_def entry_ok_def by fastforce
      then have "cnt \<notin> (\<lambda>e. fst (snd (snd e))) ` set H" by auto
      with Cm show ?thesis by (simp add: as_common_def eq)
    qed
    have c3: "\<exists>c. (g + heuristic y t, g, c, y) \<in> set H'" if "G' (key y) = Some g" "key y \<notin> C'" for y g
    proof (cases "y = n")
      case True
      with that show ?thesis by (auto simp: eq)
    next
      case False
      with that have "G (key y) = Some g" "key y \<notin> C" by (auto simp: eq)
      with Cm obtain c where "(g + heuristic y t, g, c, y) \<in> set H" unfolding as_common_def by blast
      then show ?thesis by (auto simp: eq)
    qed
    have c4: "0 < g \<and> (\<exists>p. parent gr' (key y) = Some (Some p) \<and> key p \<in> C' \<and> G' (key p) = Some (g - 1) \<and>
               y \<in> set (nbrs g0 p))" if "G' (key y) = Some g" "y \<noteq> s" for y g
    proof (cases "y = n")
      case True
      with that have "g = gx + 1" by (simp add: eq)
      with True gx0 xC Gx n nx show ?thesis by (auto simp: eq)
    next
      case False
      with that have "G (key y) = Some g" by (auto simp: eq)
      with Cm that(2) obtain p where "0 < g" "parent gr (key y) = Some (Some p)" "key p \<in> C"
        "G (key p) = Some (g - 1)" "y \<in> set (nbrs g0 p)"
        unfolding as_common_def by blast
      with False GC[of p] show ?thesis by (auto simp: eq)
    qed
    have cm: "as_common g0 s t gr' H' G' cnt' C'"
      unfolding as_common_def
    proof (intro conjI)
      show "find_neighbors gr' = find_neighbors g0" using Cm by (simp add: as_common_def eq)
      show "dom (parent gr') = dom G'" using Cm by (simp add: as_common_def eq)
      show "G' (key s) = Some 0" using Cm ns by (simp add: as_common_def eq)
      show "parent gr' (key s) = Some None" using Cm ns by (simp add: as_common_def eq)
      show "C' \<subseteq> dom G'" using Cm by (auto simp: as_common_def eq)
      show "key t \<notin> C'" using Cm by (simp add: as_common_def eq)
    qed (use c1 c2 c3 c4 in blast)+
    have "relaxed g0 G' C' x n" by (simp add: relaxed_def eq GC[OF xC] Gx)
    moreover have "\<forall>v \<in> D. relaxed g0 G' C' x v"
      using Dr rel xC by (auto simp: eq(5))
    moreover have "\<forall>v \<in> set (nbrs g0 u). relaxed g0 G' C' u v" if "key u \<in> C'" "u \<noteq> x" for u
      using Ur[of u] rel that by (auto simp: eq(5))
    ultimately show ?thesis
      unfolding as_mid_def using cm sC xC GC[OF xC] Gx by (auto simp: eq(5))
  qed
qed

lemma relax_closed:
  "relax x gx t (gr, H, G, cnt, C) n = (gr', H', G', cnt', C') \<Longrightarrow> C' = C"
  by (auto simp: relax_def Let_def split: if_splits)

lemma as_mid_fold:
  assumes "as_mid g0 s t x gx D gr H G cnt C" "set ns \<subseteq> set (nbrs g0 x)"
    and "foldl (relax x gx t) (gr, H, G, cnt, C) ns = (gr', H', G', cnt', C')"
  shows "as_mid g0 s t x gx (D \<union> set ns) gr' H' G' cnt' C'"
  using assms
proof (induction ns arbitrary: D gr H G cnt C)
  case Nil
  then show ?case by simp
next
  case (Cons n ns)
  obtain gr1 H1 G1 cnt1 C1 where d: "relax x gx t (gr, H, G, cnt, C) n = (gr1, H1, G1, cnt1, C1)"
    by (cases "relax x gx t (gr, H, G, cnt, C) n") auto
  from Cons.prems have "as_mid g0 s t x gx (insert n D) gr1 H1 G1 cnt1 C1"
    by (intro as_mid_relax[OF _ _ d]) auto
  from Cons.IH[OF this] Cons.prems d show ?case by simp
qed

lemma as_mid_finish:
  assumes "as_mid g0 s t x gx (set (nbrs g0 x)) gr H G cnt C"
  shows "as_inv g0 s t gr H G cnt C"
proof -
  have "\<forall>v \<in> set (nbrs g0 u). relaxed g0 G C u v" if "key u \<in> C" for u
    using assms that unfolding as_mid_def by (cases "u = x") auto
  with assms show ?thesis unfolding as_inv_def as_mid_def by blast
qed

lemma heappop_props:
  assumes "H \<noteq> []" "heappop H = (e, H')"
  shows "e \<in> set H" "H' = remove1 e H" "\<forall>e' \<in> set H. entry_key e \<le> entry_key e'"
proof -
  from assms(2) have e: "e = arg_min_list entry_key H" and H': "H' = remove1 e H"
    by (auto simp: heappop_def Let_def)
  show "e \<in> set H" using assms(1) e by (simp add: arg_min_list_in)
  show "H' = remove1 e H" by fact
  from f_arg_min_list_f[OF assms(1), of entry_key] e
  have "entry_key e = Min (entry_key ` set H)" by simp
  then show "\<forall>e' \<in> set H. entry_key e \<le> entry_key e'" by simp
qed

lemma distinct_map_remove1:
  "distinct (map f xs) \<Longrightarrow> distinct (map f (remove1 x xs))"
  by (induction xs) (auto dest: notin_set_remove1 simp: image_iff)

lemma as_inv_popped_g:
  assumes I: "as_inv g0 s t gr H G cnt C" and ne: "H \<noteq> []"
    and pop: "heappop H = ((f, g, c, x), H')" and xC: "key x \<notin> C"
  shows "G (key x) = Some g" "f = g + heuristic x t"
proof -
  from I have Cm: "as_common g0 s t gr H G cnt C" by (simp add: as_inv_def)
  note hp = heappop_props[OF ne pop]
  from hp(1) Cm have "entry_ok t G cnt (f, g, c, x)" unfolding as_common_def by blast
  then obtain g' where g': "f = g + heuristic x t" "G (key x) = Some g'" "g' \<le> g"
    by (auto simp: entry_ok_def)
  from Cm g'(2) xC obtain c' where "(g' + heuristic x t, g', c', x) \<in> set H"
    unfolding as_common_def by blast
  with hp(3) have "entry_key (f, g, c, x) \<le> entry_key (g' + heuristic x t, g', c', x)" by blast
  then have "f \<le> g' + heuristic x t" by (auto simp: entry_key_def less_eq_prod_def)
  with g' show "G (key x) = Some g" "f = g + heuristic x t" by auto
qed

lemma as_common_remove:
  assumes Cm: "as_common g0 s t gr H G cnt C" and e: "e = (f, g, c, x)" "key x \<in> C'"
    and C': "C \<subseteq> C'" "C' \<subseteq> dom G" "key t \<notin> C'"
  shows "as_common g0 s t (gr\<lparr>visited_cells := vc\<rparr>) (remove1 e H) G cnt C'"
proof -
  have 1: "\<forall>e' \<in> set (remove1 e H). entry_ok t G cnt e'"
    using Cm unfolding as_common_def by (meson notin_set_remove1)
  have 2: "distinct (map (\<lambda>e. fst (snd (snd e))) (remove1 e H))"
    using Cm unfolding as_common_def by (intro distinct_map_remove1) blast
  have 3: "\<exists>c. (g' + heuristic y t, g', c, y) \<in> set (remove1 e H)" if "G (key y) = Some g'" "key y \<notin> C'" for y g'
  proof -
    from that C' have "key y \<notin> C" by auto
    with that Cm obtain c' where c': "(g' + heuristic y t, g', c', y) \<in> set H"
      unfolding as_common_def by blast
    from that(2) e have "(g' + heuristic y t, g', c', y) \<noteq> e" by auto
    with c' show ?thesis by (metis in_set_remove1)
  qed
  have 4: "0 < g' \<and> (\<exists>p. parent gr (key y) = Some (Some p) \<and> key p \<in> C' \<and> G (key p) = Some (g' - 1) \<and>
               y \<in> set (nbrs g0 p))" if "G (key y) = Some g'" "y \<noteq> s" for y g'
    using that Cm C'(1) unfolding as_common_def by blast
  show ?thesis
    unfolding as_common_def
  proof (intro conjI)
    show "find_neighbors (gr\<lparr>visited_cells := vc\<rparr>) = find_neighbors g0" using Cm by (simp add: as_common_def)
    show "dom (parent (gr\<lparr>visited_cells := vc\<rparr>)) = dom G" using Cm by (simp add: as_common_def)
    show "G (key s) = Some 0" using Cm by (simp add: as_common_def)
    show "parent (gr\<lparr>visited_cells := vc\<rparr>) (key s) = Some None" using Cm by (simp add: as_common_def)
    show "C' \<subseteq> dom G" by fact
    show "key t \<notin> C'" by fact
  qed (use 1 2 3 4 in simp_all)
qed

lemma relaxed_mono: "relaxed g0 G C u v \<Longrightarrow> C \<subseteq> C' \<Longrightarrow> relaxed g0 G C' u v"
  unfolding relaxed_def by blast

lemma as_inv_skip:
  assumes I: "as_inv g0 s t gr H G cnt C" and ne: "H \<noteq> []"
    and pop: "heappop H = ((f, g, c, x), H')" and xC: "key x \<in> C"
  shows "as_inv g0 s t gr H' G cnt C"
proof -
  from I have Cm: "as_common g0 s t gr H G cnt C" by (simp add: as_inv_def)
  note hp = heappop_props[OF ne pop]
  have "as_common g0 s t (gr\<lparr>visited_cells := visited_cells gr\<rparr>) (remove1 (f, g, c, x) H) G cnt C"
    using Cm by (intro as_common_remove[OF Cm refl xC]) (auto simp: as_common_def)
  then have "as_common g0 s t gr H' G cnt C" by (simp add: hp(2))
  moreover have "\<forall>e \<in> set H'. P e" if "\<forall>e \<in> set H. P e" for P
    using that hp(2) by (meson notin_set_remove1)
  ultimately show ?thesis using I unfolding as_inv_def by blast
qed

lemma as_inv_pop:
  assumes I: "as_inv g0 s t gr H G cnt C" and ne: "H \<noteq> []"
    and pop: "heappop H = ((f, g, c, x), H')" and xC: "key x \<notin> C" and xt: "\<not> is_goal x t"
  shows "as_mid g0 s t x g {} (gr\<lparr>visited_cells := vc\<rparr>) H' G cnt (insert (key x) C)"
proof -
  from I have Cm: "as_common g0 s t gr H G cnt C" by (simp add: as_inv_def)
  note hp = heappop_props[OF ne pop]
  note Gx = as_inv_popped_g[OF I ne pop xC]
  from xt have xt': "key x \<noteq> key t" by (simp add: is_goal_iff)
  have "as_common g0 s t (gr\<lparr>visited_cells := vc\<rparr>) (remove1 (f, g, c, x) H) G cnt (insert (key x) C)"
    using Cm Gx xt' by (intro as_common_remove[OF Cm refl]) (auto simp: as_common_def)
  then have cm: "as_common g0 s t (gr\<lparr>visited_cells := vc\<rparr>) H' G cnt (insert (key x) C)"
    by (simp add: hp(2))
  have s: "key s \<in> insert (key x) C"
  proof (cases "key s \<in> C")
    case False
    with I hp(1) have "x = s" unfolding as_inv_def by fastforce
    then show ?thesis by simp
  qed simp
  have "\<forall>v \<in> set (nbrs g0 u). relaxed g0 G (insert (key x) C) u v" if "key u \<in> insert (key x) C" "u \<noteq> x" for u
  proof -
    from that have "key u \<in> C" by auto
    with I have "\<forall>v \<in> set (nbrs g0 u). relaxed g0 G C u v" unfolding as_inv_def by blast
    then show ?thesis using relaxed_mono by blast
  qed
  with cm s Gx(1) show ?thesis unfolding as_mid_def by auto
qed

lemma as_inv_init:
  assumes "astar_init graph start goal = (gr, H, G, cnt, C)"
  shows "as_inv graph start goal gr H G cnt C"
  using assms
  by (auto simp: astar_init_def init_graph_def Let_def as_inv_def as_common_def entry_ok_def heappush_def
      split: if_splits)

lemma as_inv_expand:
  assumes I: "as_inv g0 s t gr H G cnt C" and ne: "H \<noteq> []"
    and pop: "heappop H = ((f, g, c, x), H')" and xC: "key x \<notin> C" and xt: "\<not> is_goal x t"
    and e: "astar_expand x g t (gr\<lparr>visited_cells := vc\<rparr>, H', G, cnt, insert (key x) C) = (gr', H'', G', cnt', C')"
  shows "as_inv g0 s t gr' H'' G' cnt' C'"
proof -
  from I have N: "nbrs (gr\<lparr>visited_cells := vc\<rparr>) x = nbrs g0 x"
    by (intro nbrs_cong) (simp add: as_inv_def as_common_def)
  from as_mid_fold[OF as_inv_pop[OF I ne pop xC xt] subset_refl, of vc gr' H'' G' cnt' C'] e N
  have "as_mid g0 s t x g (set (nbrs g0 x)) gr' H'' G' cnt' C'"
    by (simp add: astar_expand_def)
  then show ?thesis by (rule as_mid_finish)
qed

lemma astar_head_inv:
  "astar_head g0 s t st \<Longrightarrow>
     as_inv g0 s t (fst st) (fst (snd st)) (fst (snd (snd st))) (fst (snd (snd (snd st)))) (snd (snd (snd (snd st))))"
proof (induction rule: astar_head.induct)
  case astar_head_init
  obtain gr H G cnt C where "astar_init g0 s t = (gr, H, G, cnt, C)"
    by (cases "astar_init g0 s t") auto
  from as_inv_init[OF this] this show ?case by simp
next
  case (astar_head_skip gr H G cnt C f g c x H')
  from as_inv_skip[OF _ astar_head_skip(2,3,4)] astar_head_skip.IH show ?case by simp
next
  case (astar_head_step gr H G cnt C f g c x H')
  let ?vc = "visited_cells gr @ [Cell (cell_i x) (cell_j x)]"
  obtain gr' H'' G' cnt' C' where e:
    "astar_expand x g t (gr\<lparr>visited_cells := ?vc\<rparr>, H', G, cnt, insert (key x) C) = (gr', H'', G', cnt', C')"
    by (cases "astar_expand x g t (gr\<lparr>visited_cells := ?vc\<rparr>, H', G, cnt, insert (key x) C)") auto
  from as_inv_expand[OF _ astar_head_step(2,3,4,5) e] astar_head_step.IH e show ?case by simp
qed

subsection \<open>A*: the parent tree, the end of a run, termination\<close>

lemma as_common_tree:
  assumes Cm: "as_common g0 s t gr H G cnt C"
  shows "tree_inv g0 s (parent gr) (\<lambda>k. nat (the (G k)))"
  unfolding tree_inv_def
proof (intro conjI allI impI)
  show "parent gr (key s) = Some None" "nat (the (G (key s))) = 0"
    using Cm by (simp_all add: as_common_def)
next
  fix k v assume kv: "parent gr k = Some v" "k \<noteq> key s"
  from Cm kv(1) have "k \<in> dom G" unfolding as_common_def by blast
  then obtain g where g: "G (key (cell_of k)) = Some g" by auto
  from kv(2) have "cell_of k \<noteq> s" by auto
  with Cm g obtain p where p: "0 < g" "parent gr (key (cell_of k)) = Some (Some p)" "key p \<in> C"
    "G (key p) = Some (g - 1)" "cell_of k \<in> set (nbrs g0 p)"
    unfolding as_common_def by blast
  from Cm p(3) have "key p \<in> dom (parent gr)" unfolding as_common_def by blast
  with p g kv(1) show "\<exists>p. v = Some p \<and> key p \<in> dom (parent gr) \<and>
      nat (the (G k)) = Suc (nat (the (G (key p)))) \<and> cell_of k \<in> set (nbrs g0 p)"
    by (intro exI[of _ p]) auto
qed

lemma as_common_return_path:
  assumes Cm: "as_common g0 s t gr H G cnt C" and c: "G (key c) = Some g"
  shows "\<exists>p. return_path c gr = Some (Inr (gr, p)) \<and> path_from_to g0 s c p \<and> int (length p) = g + 1"
proof -
  from Cm c have d: "key c \<in> dom (parent gr)" and N: "find_neighbors gr = find_neighbors g0"
    unfolding as_common_def by auto
  from trace_loop_tree[OF as_common_tree[OF Cm] N d, of "[]"] as_common_zero[OF Cm c] c
  show ?thesis by (auto simp: return_path_def trace_path_def)
qed

lemma as_common_reachable:
  assumes Cm: "as_common g0 s t gr H G cnt C" and c: "key c \<in> dom G"
  shows "c \<in> reachable g0 s"
proof -
  from Cm c have "key c \<in> dom (parent gr)" unfolding as_common_def by auto
  from tree_reach[OF as_common_tree[OF Cm] this] show ?thesis unfolding reachable_def by blast
qed

lemma a_star_loop_exit_aux:
  "a_star_loop st t = Some res \<Longrightarrow> astar_head g0 s t st \<longrightarrow>
     (\<exists>gr H G cnt C. astar_head g0 s t (gr, H, G, cnt, C) \<and>
        (H = [] \<longrightarrow> res = Inr (gr, [])) \<and>
        (H \<noteq> [] \<longrightarrow> (\<exists>f g c x H'. heappop H = ((f, g, c, x), H') \<and> key x \<notin> C \<and> is_goal x t \<and>
                return_path x (gr\<lparr>visited_cells := visited_cells gr @ [Cell (cell_i x) (cell_j x)]\<rparr>) = Some res)))"
proof (induction st t res rule: a_star_loop.raw_induct[rotated 1, consumes 1])
  case (1 loop st goal res)
  obtain gr H G cnt C where st: "st = (gr, H, G, cnt, C)" by (cases st) auto
  show ?case
  proof (intro impI)
    assume h: "astar_head g0 s goal st"
    let ?Q = "\<exists>gr H G cnt C. astar_head g0 s goal (gr, H, G, cnt, C) \<and>
        (H = [] \<longrightarrow> res = Inr (gr, [])) \<and>
        (H \<noteq> [] \<longrightarrow> (\<exists>f g c x H'. heappop H = ((f, g, c, x), H') \<and> key x \<notin> C \<and> is_goal x goal \<and>
                return_path x (gr\<lparr>visited_cells := visited_cells gr @ [Cell (cell_i x) (cell_j x)]\<rparr>) = Some res))"
    show ?Q
    proof (cases "H = []")
      case True
      with 1(2) h show ?thesis unfolding st
        by (intro exI[of _ gr] exI[of _ H] exI[of _ G] exI[of _ cnt] exI[of _ C]) auto
    next
      case ne: False
      obtain f g c x H' where pop: "heappop H = ((f, g, c, x), H')"
        by (cases "heappop H") auto
      show ?thesis
      proof (cases "key x \<in> C")
        case True
        with 1(2) ne pop have "loop (gr, H', G, cnt, C) goal = Some res" by (simp add: st)
        moreover have "astar_head g0 s goal (gr, H', G, cnt, C)"
          using astar_head_skip[OF h[unfolded st] ne pop True] .
        ultimately show ?thesis using 1(1) by blast
      next
        case nC: False
        show ?thesis
        proof (cases "is_goal x goal")
          case True
          with 1(2) ne pop nC have "return_path x (gr\<lparr>visited_cells := visited_cells gr @ [Cell (cell_i x) (cell_j x)]\<rparr>) = Some res"
            by (simp add: st Let_def)
          with h ne pop nC True show ?thesis unfolding st
            by (intro exI[of _ gr] exI[of _ H] exI[of _ G] exI[of _ cnt] exI[of _ C]) auto
        next
          case False
          let ?st' = "astar_expand x g goal (gr\<lparr>visited_cells := visited_cells gr @ [Cell (cell_i x) (cell_j x)]\<rparr>, H', G, cnt, insert (key x) C)"
          from 1(2) ne pop nC False have "loop ?st' goal = Some res" by (simp add: st Let_def)
          moreover have "astar_head g0 s goal ?st'"
            using astar_head_step[OF h[unfolded st] ne pop nC False] .
          ultimately show ?thesis using 1(1) by blast
        qed
      qed
    qed
  qed
qed

lemma a_star_loop_exit:
  assumes "a_star_loop st t = Some res" "astar_head g0 s t st"
  shows "\<exists>gr H G cnt C. astar_head g0 s t (gr, H, G, cnt, C) \<and>
        (H = [] \<longrightarrow> res = Inr (gr, [])) \<and>
        (H \<noteq> [] \<longrightarrow> (\<exists>f g c x H'. heappop H = ((f, g, c, x), H') \<and> key x \<notin> C \<and> is_goal x t \<and>
                return_path x (gr\<lparr>visited_cells := visited_cells gr @ [Cell (cell_i x) (cell_j x)]\<rparr>) = Some res))"
  using a_star_loop_exit_aux[OF assms(1)] assms(2) by blast

lemma relax_fold_closed:
  "foldl (relax x gx t) (gr, H, G, cnt, C) ns = (gr', H', G', cnt', C') \<Longrightarrow> C' = C"
proof (induction ns arbitrary: gr H G cnt)
  case Nil
  then show ?case by simp
next
  case (Cons n ns)
  obtain gr1 H1 G1 cnt1 C1 where d: "relax x gx t (gr, H, G, cnt, C) n = (gr1, H1, G1, cnt1, C1)"
    by (cases "relax x gx t (gr, H, G, cnt, C) n") auto
  from relax_closed[OF d] have "C1 = C" .
  with Cons d show ?case by simp
qed

lemma a_star_terminates_aux:
  assumes fin: "finite (reachable g0 s)"
  shows "astar_head g0 s t st \<longrightarrow> (\<exists>res. a_star_loop st t = Some (Inr res))"
proof (induction st rule: wf_induct_rule[OF wf_inv_image[OF wf_lex_prod[OF wf_less_than wf_less_than], of "as_measure (reachable g0 s)"]])
  case (1 st)
  obtain gr H G cnt C where st: "st = (gr, H, G, cnt, C)" by (cases st) auto
  show ?case
  proof (intro impI)
    assume h: "astar_head g0 s t st"
    from astar_head_inv[OF h] have I: "as_inv g0 s t gr H G cnt C" by (simp add: st)
    then have Cm: "as_common g0 s t gr H G cnt C" by (simp add: as_inv_def)
    show "\<exists>res. a_star_loop st t = Some (Inr res)"
    proof (cases "H = []")
      case True
      then show ?thesis unfolding st by (subst a_star_loop.simps) simp
    next
      case ne: False
      obtain f g c x H' where pop: "heappop H = ((f, g, c, x), H')"
        by (cases "heappop H") auto
      note hp = heappop_props[OF ne pop]
      have len: "length H' < length H"
        using hp(1,2) ne by (simp add: length_remove1)
      show ?thesis
      proof (cases "key x \<in> C")
        case True
        have "astar_head g0 s t (gr, H', G, cnt, C)"
          using astar_head_skip[OF h[unfolded st] ne pop True] .
        moreover have "((gr, H', G, cnt, C), st) \<in> inv_image (less_than <*lex*> less_than) (as_measure (reachable g0 s))"
          using len by (simp add: st as_measure_def)
        ultimately have "\<exists>res. a_star_loop (gr, H', G, cnt, C) t = Some (Inr res)"
          using 1 by blast
        with ne pop True show ?thesis unfolding st by (subst a_star_loop.simps) simp
      next
        case nC: False
        let ?gr = "gr\<lparr>visited_cells := visited_cells gr @ [Cell (cell_i x) (cell_j x)]\<rparr>"
        note Gx = as_inv_popped_g[OF I ne pop nC]
        show ?thesis
        proof (cases "is_goal x t")
          case True
          from Cm have Cm': "as_common g0 s t ?gr H G cnt C" by (simp add: as_common_def)
          from as_common_return_path[OF Cm' Gx(1)] ne pop nC True show ?thesis
            unfolding st by (subst a_star_loop.simps) (auto simp: Let_def)
        next
          case False
          let ?st' = "astar_expand x g t (?gr, H', G, cnt, insert (key x) C)"
          obtain gr' H'' G' cnt' C' where e: "?st' = (gr', H'', G', cnt', C')" by (cases ?st') auto
          then have C': "C' = insert (key x) C"
            by (auto simp: astar_expand_def dest: relax_fold_closed)
          have "astar_head g0 s t ?st'"
            using astar_head_step[OF h[unfolded st] ne pop nC False] .
          moreover have "(?st', st) \<in> inv_image (less_than <*lex*> less_than) (as_measure (reachable g0 s))"
          proof -
            from Gx(1) have "x \<in> reachable g0 s" by (intro as_common_reachable[OF Cm]) auto
            with nC have xin: "x \<in> reachable g0 s - cell_of ` C" by auto
            have "reachable g0 s - cell_of ` C' = (reachable g0 s - cell_of ` C) - {x}"
              by (auto simp: C')
            then have "card (reachable g0 s - cell_of ` C') = card (reachable g0 s - cell_of ` C) - 1"
              using xin by simp
            moreover have "card (reachable g0 s - cell_of ` C) > 0"
              using xin fin by (metis card_gt_0_iff empty_iff finite_Diff)
            ultimately show ?thesis using e by (simp add: st as_measure_def)
          qed
          ultimately have "\<exists>res. a_star_loop ?st' t = Some (Inr res)" using 1 by blast
          with ne pop nC False show ?thesis unfolding st
            by (subst a_star_loop.simps) (simp add: Let_def)
        qed
      qed
    qed
  qed
qed

lemma a_star_terminates:
  assumes "finite (reachable g0 s)" "astar_head g0 s t st"
  shows "\<exists>res. a_star_loop st t = Some (Inr res)"
  using a_star_terminates_aux[OF assms(1)] assms(2) by blast

subsection \<open>Breadth-first search finds a shortest path\<close>

lemma bfs_lev_pop:
  assumes "bfs_lev_inv g0 s Q V r" "Q \<noteq> []"
  shows "bfs_lev_mid g0 s (hd Q) (tl Q) V r"
proof -
  obtain x Q' where Q: "Q = x # Q'" using assms(2) by (cases Q) auto
  from assms(1) show ?thesis
    unfolding bfs_lev_inv_def bfs_lev_mid_def Q by auto
qed

lemma fs_common_start:
  "fs_common g0 s g fr V r \<Longrightarrow> key s \<in> V \<and> r (key s) = 0"
  unfolding fs_common_def using tree_inv_root by fastforce

lemma bfs_lev_discover:
  assumes F: "fs_mid g0 s t x D g Q V r" and L: "bfs_lev_mid g0 s x Q V r"
    and n: "n \<in> set (nbrs g0 x)" and d: "discover x (g, Q, V) n = (g', Q', V')"
  shows "bfs_lev_mid g0 s x Q' V' (lev_upd x V r n)"
proof (cases "key n \<in> V")
  case True
  with d L show ?thesis by (auto simp: discover_def lev_upd_def)
next
  case False
  with d have eq: "Q' = Q @ [n]" "V' = insert (key n) V" by (auto simp: discover_def)
  let ?r = "r(key n := Suc (r (key x)))"
  from False have r': "lev_upd x V r n = ?r" by (simp add: lev_upd_def)
  from F have Fc: "fs_common g0 s g Q V r" and xV: "key x \<in> V"
    and QV: "\<forall>c \<in> set Q. key c \<in> V"
    and dn: "\<And>c. key c \<in> V \<Longrightarrow> c \<notin> set Q \<Longrightarrow> c \<noteq> x \<Longrightarrow> \<forall>n \<in> set (nbrs g0 c). key n \<in> V"
    unfolding fs_mid_def fs_common_def by blast+
  from L have L1: "sorted (map (\<lambda>q. r (key q)) Q)"
    and L1': "\<forall>q \<in> set Q. r (key x) \<le> r (key q) \<and> r (key q) \<le> Suc (r (key x))"
    and L2: "\<And>c m. key c \<in> V \<Longrightarrow> reach_in g0 s m c \<Longrightarrow> r (key c) \<le> m"
    and L3: "\<And>c m. reach_in g0 s m c \<Longrightarrow> key c \<notin> V \<or> c \<in> set Q \<or> c = x \<Longrightarrow> r (key x) \<le> m"
    unfolding bfs_lev_mid_def by blast+
  have old: "\<And>c. key c \<in> V \<Longrightarrow> ?r (key c) = r (key c)" using False by auto
  have mQ: "map (\<lambda>q. ?r (key q)) Q = map (\<lambda>q. r (key q)) Q"
    using QV old by (intro map_cong) auto
  have "map (\<lambda>q. ?r (key q)) Q' = map (\<lambda>q. ?r (key q)) Q @ [?r (key n)]"
    by (simp only: eq map_append list.map)
  also have "\<dots> = map (\<lambda>q. r (key q)) Q @ [Suc (r (key x))]"
    unfolding mQ by simp
  finally have A: "sorted (map (\<lambda>q. ?r (key q)) Q')"
    using L1 L1' by (auto simp: sorted_append)
  have B: "\<forall>q \<in> set Q'. ?r (key x) \<le> ?r (key q) \<and> ?r (key q) \<le> Suc (?r (key x))"
    using L1' xV False QV by (auto simp: eq)
  have C: "?r (key c) \<le> m" if "key c \<in> V'" "reach_in g0 s m c" for c m
  proof (cases "c = n")
    case cn: True
    from that(2) show ?thesis
    proof (cases rule: reach_in.cases)
      case reach_zero
      with cn fs_common_start[OF Fc] False show ?thesis by auto
    next
      case (reach_step m' c')
      have "key c' \<notin> V \<or> c' \<in> set Q \<or> c' = x"
        using dn[of c'] reach_step(3) cn False by blast
      from L3[OF reach_step(2) this] reach_step(1) cn show ?thesis by simp
    qed
  next
    case False
    with that(1) have "key c \<in> V" by (auto simp: eq)
    with L2[OF this that(2)] old show ?thesis by simp
  qed
  have D: "?r (key x) \<le> m" if "reach_in g0 s m c" "key c \<notin> V' \<or> c \<in> set Q' \<or> c = x" for c m
  proof -
    from that(2) False have "key c \<notin> V \<or> c \<in> set Q \<or> c = x" by (auto simp: eq)
    from L3[OF that(1) this] old[OF xV] show ?thesis by simp
  qed
  show ?thesis unfolding bfs_lev_mid_def r' using A B C D by blast
qed

lemma bfs_mid_fold:
  assumes "fs_mid g0 s t x D g Q V r" "bfs_lev_mid g0 s x Q V r" "set ns \<subseteq> set (nbrs g0 x)"
    and "foldl (discover x) (g, Q, V) ns = (g', Q', V')"
  shows "bfs_lev_mid g0 s x Q' V' (levs x V r ns)"
  using assms
proof (induction ns arbitrary: D g Q V r)
  case Nil
  then show ?case by simp
next
  case (Cons n ns)
  obtain g1 Q1 V1 where d: "discover x (g, Q, V) n = (g1, Q1, V1)"
    by (cases "discover x (g, Q, V) n") auto
  have V1: "V1 = insert (key n) V"
    using d by (auto simp: discover_def split: if_splits)
  from Cons.prems have n: "n \<in> set (nbrs g0 x)" by auto
  have 1: "fs_mid g0 s t x (insert n D) g1 Q1 V1 (lev_upd x V r n)"
    using fs_mid_discover[OF Cons.prems(1) n d] .
  have 2: "bfs_lev_mid g0 s x Q1 V1 (lev_upd x V r n)"
    using bfs_lev_discover[OF Cons.prems(1,2) n d] .
  from Cons.IH[OF 1 2] Cons.prems d show ?case by (simp add: V1)
qed

lemma bfs_lev_finish:
  assumes F: "fs_mid g0 s t x (set (nbrs g0 x)) g Q V r" and L: "bfs_lev_mid g0 s x Q V r"
  shows "bfs_lev_inv g0 s Q V r"
proof -
  from F have Fc: "fs_common g0 s g Q V r" and xV: "key x \<in> V"
    and QV: "\<forall>c \<in> set Q. key c \<in> V"
    and dn: "\<And>c. key c \<in> V \<Longrightarrow> c \<notin> set Q \<Longrightarrow> \<forall>n \<in> set (nbrs g0 c). key n \<in> V"
    unfolding fs_mid_def fs_common_def by blast+
  from L have L1: "sorted (map (\<lambda>q. r (key q)) Q)"
    and L1': "\<forall>q \<in> set Q. r (key x) \<le> r (key q) \<and> r (key q) \<le> Suc (r (key x))"
    and L2: "\<And>c m. key c \<in> V \<Longrightarrow> reach_in g0 s m c \<Longrightarrow> r (key c) \<le> m"
    and L3: "\<And>c m. reach_in g0 s m c \<Longrightarrow> key c \<notin> V \<or> c \<in> set Q \<or> c = x \<Longrightarrow> r (key x) \<le> m"
    unfolding bfs_lev_mid_def by blast+
  have B: "\<forall>q \<in> set Q. r (key q) \<le> Suc (r (key (hd Q)))"
  proof
    fix q assume q: "q \<in> set Q"
    then have "hd Q \<in> set Q" by (cases Q) auto
    with L1' q show "r (key q) \<le> Suc (r (key (hd Q)))" by (meson Suc_le_mono le_trans)
  qed
  have D: "r (key (hd Q)) \<le> m" if reach: "reach_in g0 s m c" and nd: "key c \<notin> V \<or> c \<in> set Q" and ne: "Q \<noteq> []" for c m
  proof (rule ccontr)
    assume "\<not> r (key (hd Q)) \<le> m"
    then have lt: "m < r (key (hd Q))" by simp
    from ne have hQ: "hd Q \<in> set Q" by simp
    from L3[OF reach] nd have xm: "r (key x) \<le> m" by blast
    with lt L1' hQ have hd: "r (key (hd Q)) = Suc (r (key x))" and m: "m = r (key x)" by force+
    have all: "\<forall>q \<in> set Q. Suc (r (key x)) \<le> r (key q)"
    proof -
      obtain y Q' where Q: "Q = y # Q'" using ne by (cases Q) auto
      with L1 hd show ?thesis by auto
    qed
    have cV: "key c \<in> V"
      using reach
    proof (cases rule: reach_in.cases)
      case reach_zero
      with fs_common_start[OF Fc] show ?thesis by simp
    next
      case (reach_step m' c')
      have "\<not> (key c' \<notin> V \<or> c' \<in> set Q \<or> c' = x)"
        using L3[OF reach_step(2)] reach_step(1) m by auto
      with dn[of c'] reach_step(3) show ?thesis by blast
    qed
    with nd have "c \<in> set Q" by blast
    with all have "Suc (r (key x)) \<le> r (key c)" by blast
    moreover from L2[OF cV reach] m have "r (key c) \<le> r (key x)" by simp
    ultimately show False by simp
  qed
  show ?thesis unfolding bfs_lev_inv_def using L1 B L2 D by blast
qed

lemma bfs_head_inv:
  "bfs_head g0 s t st \<Longrightarrow>
     \<exists>r. fs_inv g0 s t (fst st) (fst (snd st)) (snd (snd st)) r \<and> bfs_lev_inv g0 s (fst (snd st)) (snd (snd st)) r"
proof (induction rule: bfs_head.induct)
  case bfs_head_init
  have "bfs_lev_inv g0 s [s] {key s} (\<lambda>_. 0)"
    by (auto simp: bfs_lev_inv_def)
  moreover have "fs_inv g0 s t (fst (search_init g0 s)) [s] {key s} (\<lambda>_. 0)"
    by (rule fs_inv_init) (simp add: search_init_def Let_def)
  ultimately show ?case by (auto simp: search_init_def Let_def)
next
  case (bfs_head_step g queue visited)
  then obtain r where r: "fs_inv g0 s t g queue visited r" and l: "bfs_lev_inv g0 s queue visited r" by auto
  let ?x = "hd queue"
  obtain g' fr' V' where e: "expand ?x (g, tl queue, visited) = (g', fr', V')"
    by (cases "expand ?x (g, tl queue, visited)") auto
  from r have N: "nbrs g ?x = nbrs g0 ?x"
    by (intro nbrs_cong) (simp add: fs_inv_def fs_common_def)
  from bfs_head_step.hyps(3) have xt: "?x \<noteq> t" by (simp add: is_goal_iff)
  have xin: "?x \<in> set queue" using bfs_head_step.hyps(2) by simp
  have sub: "set (tl queue) \<subseteq> set queue" "set queue \<subseteq> insert ?x (set (tl queue))"
    using bfs_head_step.hyps(2) by (cases queue; auto)+
  have m0: "fs_mid g0 s t ?x {} g (tl queue) visited r"
    using fs_inv_pop[OF r xin xt sub] .
  have l0: "bfs_lev_mid g0 s ?x (tl queue) visited r"
    using bfs_lev_pop[OF l bfs_head_step.hyps(2)] .
  from e N have f: "foldl (discover ?x) (g, tl queue, visited) (nbrs g0 ?x) = (g', fr', V')"
    by (simp add: expand_def)
  let ?r = "levs ?x visited r (nbrs g0 ?x)"
  have m1: "fs_mid g0 s t ?x (set (nbrs g0 ?x)) g' fr' V' ?r"
    using fs_mid_fold[OF m0 subset_refl f] by simp
  have l1: "bfs_lev_mid g0 s ?x fr' V' ?r"
    using bfs_mid_fold[OF m0 l0 subset_refl f] .
  from fs_mid_finish[OF m1] bfs_lev_finish[OF m1 l1] e show ?case by auto
qed

lemma walk_append_one:
  "walk g (q @ [c]) \<longleftrightarrow> q = [] \<or> (walk g q \<and> c \<in> set (nbrs g (last q)))"
  by (induction g q rule: walk.induct) auto

lemma walk_reach: "walk g q \<Longrightarrow> reach_in g (hd q) (length q - 1) (last q)"
proof (induction q rule: rev_induct)
  case Nil
  then show ?case by simp
next
  case (snoc c q)
  show ?case
  proof (cases "q = []")
    case True
    then show ?thesis by (simp add: reach_zero)
  next
    case False
    with snoc.prems have w: "walk g q" "c \<in> set (nbrs g (last q))"
      by (simp_all add: walk_append_one)
    from reach_step[OF snoc.IH[OF w(1)] w(2)] False show ?thesis
      by (cases q) auto
  qed
qed

lemma path_reach: "path_from_to g s t q \<Longrightarrow> reach_in g s (length q - 1) t"
  unfolding path_from_to_def using walk_reach by blast

lemma reach_path: "reach_in g s m t \<Longrightarrow> \<exists>q. path_from_to g s t q \<and> length q = Suc m"
proof (induction rule: reach_in.induct)
  case reach_zero
  show ?case by (intro exI[of _ "[s]"]) (simp add: path_from_to_def)
next
  case (reach_step m c n)
  then obtain q where "path_from_to g s c q" "length q = Suc m" by blast
  with path_from_to_snoc[OF this(1) reach_step(2)] show ?case
    by (intro exI[of _ "q @ [n]"]) simp
qed

lemma fs_inv_exhausted:
  assumes I: "fs_inv g0 s t g [] V r" and R: "reach_in g0 s m c"
  shows "key c \<in> V"
  using R
proof (induction rule: reach_in.induct)
  case reach_zero
  from I show ?case unfolding fs_inv_def using fs_common_start by blast
next
  case (reach_step m c n)
  with I show ?case unfolding fs_inv_def by auto
qed

lemma bfs_shortest:
  assumes fin: "finite (reachable g0 s)" and reach: "t \<in> reachable g0 s"
  shows "\<exists>g p. breadth_first_search g0 s t = Some (Inr (g, p)) \<and> path_from_to g0 s t p \<and>
           (\<forall>m. reach_in g0 s m t \<longrightarrow> length p \<le> Suc m)"
proof -
  obtain g1 fr1 V1 where i: "search_init g0 s = (g1, fr1, V1)" by (cases "search_init g0 s") auto
  have h0: "bfs_head g0 s t (g1, fr1, V1)" using bfs_head_init[of g0 s t] i by simp
  from bfs_terminates[OF fin h0] obtain res where res: "bfs_loop (g1, fr1, V1) t = Some (Inr res)" by blast
  from bfs_loop_exit[OF res h0] obtain g Q V where
    h: "bfs_head g0 s t (g, Q, V)" and
    ex: "Q \<noteq> [] \<longrightarrow> is_goal (hd Q) t \<and> return_path (hd Q) g = Some (Inr res)"
    by blast
  from bfs_head_inv[OF h] obtain r where I: "fs_inv g0 s t g Q V r" and L: "bfs_lev_inv g0 s Q V r"
    by auto
  have ne: "Q \<noteq> []"
  proof
    assume e: "Q = []"
    from reach obtain m where "reach_in g0 s m t" unfolding reachable_def by blast
    from fs_inv_exhausted[OF I[unfolded e] this] have "key t \<in> V" .
    with I e show False unfolding fs_inv_def by auto
  qed
  with ex have g: "hd Q = t" "return_path t g = Some (Inr res)" by (auto simp: is_goal_iff)
  from ne g(1) have tQ: "t \<in> set Q" by (metis list.set_sel(1))
  with I have tV: "key t \<in> V" unfolding fs_inv_def fs_common_def by blast
  from fs_inv_return_path[OF I tV] g(2) obtain p where
    p: "res = (g, p)" "path_from_to g0 s t p" "length p = Suc (r (key t))" by auto
  have "\<forall>m. reach_in g0 s m t \<longrightarrow> length p \<le> Suc m"
    using L tV p(3) unfolding bfs_lev_inv_def by auto
  with res p i show ?thesis by (auto simp: breadth_first_search_def)
qed

subsection \<open>A* finds a shortest path when the heuristic is consistent\<close>

lemma as_frontier:
  assumes I: "as_inv g0 s t gr H G cnt C" and O: "as_opt g0 s G C" and con: "consistent g0 t"
    and R: "reach_in g0 s m c"
  shows "(key c \<in> C \<and> the (G (key c)) \<le> int m) \<or>
         (\<exists>u gu. key u \<notin> C \<and> G (key u) = Some gu \<and> gu + heuristic u t \<le> int m + heuristic c t)"
  using R
proof (induction rule: reach_in.induct)
  case reach_zero
  from I have "G (key s) = Some 0" by (simp add: as_inv_def as_common_def)
  then show ?case by (cases "key s \<in> C") auto
next
  case (reach_step m c n)
  from con reach_step(2) have hc: "heuristic c t \<le> 1 + heuristic n t"
    unfolding consistent_def by blast
  show ?case
  proof (cases "key n \<in> C")
    case True
    from reach_in.reach_step[OF reach_step(1,2)] O True show ?thesis
      unfolding as_opt_def by blast
  next
    case False
    from reach_step.IH show ?thesis
    proof
      assume c: "key c \<in> C \<and> the (G (key c)) \<le> int m"
      with I reach_step(2) have "relaxed g0 G C c n" unfolding as_inv_def by blast
      with False obtain gv gu where "G (key n) = Some gv" "G (key c) = Some gu" "gv \<le> gu + 1"
        unfolding relaxed_def by blast
      with c False show ?thesis by (intro disjI2 exI[of _ n] exI[of _ gv]) auto
    next
      assume "\<exists>u gu. key u \<notin> C \<and> G (key u) = Some gu \<and> gu + heuristic u t \<le> int m + heuristic c t"
      then obtain u gu where "key u \<notin> C" "G (key u) = Some gu" "gu + heuristic u t \<le> int m + heuristic c t"
        by blast
      with hc show ?thesis by (intro disjI2 exI[of _ u] exI[of _ gu]) auto
    qed
  qed
qed

lemma as_opt_pop:
  assumes I: "as_inv g0 s t gr H G cnt C" and O: "as_opt g0 s G C" and con: "consistent g0 t"
    and ne: "H \<noteq> []" and pop: "heappop H = ((f, g, c, x), H')" and xC: "key x \<notin> C"
    and R: "reach_in g0 s m x"
  shows "g \<le> int m"
proof -
  note Gx = as_inv_popped_g[OF I ne pop xC]
  note hp = heappop_props[OF ne pop]
  from as_frontier[OF I O con R] xC obtain u gu where
    u: "key u \<notin> C" "G (key u) = Some gu" "gu + heuristic u t \<le> int m + heuristic x t" by blast
  from I u(1,2) obtain c' where "(gu + heuristic u t, gu, c', u) \<in> set H"
    unfolding as_inv_def as_common_def by blast
  with hp(3) have "entry_key (f, g, c, x) \<le> entry_key (gu + heuristic u t, gu, c', u)" by blast
  then have "f \<le> gu + heuristic u t" by (auto simp: entry_key_def less_eq_prod_def)
  with Gx(2) u(3) show ?thesis by simp
qed

lemma relax_G_closed:
  "relax x gx t (gr, H, G, cnt, C) n = (gr', H', G', cnt', C') \<Longrightarrow> k \<in> C \<Longrightarrow> G' k = G k"
  by (auto simp: relax_def Let_def split: if_splits)

lemma relax_fold_G_closed:
  "foldl (relax x gx t) (gr, H, G, cnt, C) ns = (gr', H', G', cnt', C') \<Longrightarrow> k \<in> C \<Longrightarrow> G' k = G k"
proof (induction ns arbitrary: gr H G cnt)
  case Nil
  then show ?case by simp
next
  case (Cons n ns)
  obtain gr1 H1 G1 cnt1 C1 where d: "relax x gx t (gr, H, G, cnt, C) n = (gr1, H1, G1, cnt1, C1)"
    by (cases "relax x gx t (gr, H, G, cnt, C) n") auto
  from relax_closed[OF d] have C1: "C1 = C" .
  from relax_G_closed[OF d Cons.prems(2)] have "G1 k = G k" .
  with Cons.IH[of gr1 H1 G1 cnt1] Cons.prems d C1 show ?case by simp
qed

lemma astar_head_opt:
  assumes con: "consistent g0 t"
  shows "astar_head g0 s t st \<Longrightarrow> as_opt g0 s (fst (snd (snd st))) (snd (snd (snd (snd st))))"
proof (induction rule: astar_head.induct)
  case astar_head_init
  show ?case by (simp add: astar_init_def Let_def as_opt_def)
next
  case (astar_head_skip gr H G cnt C f g c x H')
  then show ?case by simp
next
  case (astar_head_step gr H G cnt C f g c x H')
  from astar_head_inv[OF astar_head_step(1)] have I: "as_inv g0 s t gr H G cnt C" by simp
  from astar_head_step.IH have O: "as_opt g0 s G C" by simp
  let ?gr = "gr\<lparr>visited_cells := visited_cells gr @ [Cell (cell_i x) (cell_j x)]\<rparr>"
  let ?st' = "astar_expand x g t (?gr, H', G, cnt, insert (key x) C)"
  obtain gr' H'' G' cnt' C' where e: "?st' = (gr', H'', G', cnt', C')" by (cases ?st') auto
  then have f: "foldl (relax x g t) (?gr, H', G, cnt, insert (key x) C) (nbrs ?gr x) = (gr', H'', G', cnt', C')"
    by (simp add: astar_expand_def)
  from relax_fold_closed[OF f] have C': "C' = insert (key x) C" .
  note Gx = as_inv_popped_g[OF I astar_head_step(2,3,4)]
  have "the (G' (key u)) \<le> int m" if "key u \<in> C'" "reach_in g0 s m u" for u m
  proof -
    from that(1) C' have G'u: "G' (key u) = G (key u)"
      using relax_fold_G_closed[OF f] by blast
    show ?thesis
    proof (cases "u = x")
      case True
      from as_opt_pop[OF I O con astar_head_step(2,3,4)] that(2) True have "g \<le> int m" by blast
      with G'u True Gx(1) show ?thesis by simp
    next
      case False
      with that(1) C' have "key u \<in> C" by auto
      with O that(2) G'u show ?thesis unfolding as_opt_def by auto
    qed
  qed
  then have "as_opt g0 s G' C'" unfolding as_opt_def by blast
  with e show ?case by simp
qed

lemma as_inv_exhausted:
  assumes I: "as_inv g0 s t gr [] G cnt C" and R: "reach_in g0 s m c"
  shows "key c \<in> C"
proof -
  have open_closed: "key u \<in> C" if "G (key u) = Some gu" for u gu
  proof (rule ccontr)
    assume "key u \<notin> C"
    with I that show False unfolding as_inv_def as_common_def by fastforce
  qed
  from R show ?thesis
  proof (induction rule: reach_in.induct)
    case reach_zero
    from I have "G (key s) = Some 0" by (simp add: as_inv_def as_common_def)
    then show ?case by (rule open_closed)
  next
    case (reach_step m c n)
    with I have "relaxed g0 G C c n" unfolding as_inv_def by blast
    then show ?case unfolding relaxed_def using open_closed by blast
  qed
qed

lemma astar_shortest:
  assumes fin: "finite (reachable g0 s)" and reach: "t \<in> reachable g0 s" and con: "consistent g0 t"
  shows "\<exists>g p. a_star_search g0 s t = Some (Inr (g, p)) \<and> path_from_to g0 s t p \<and>
           (\<forall>m. reach_in g0 s m t \<longrightarrow> length p \<le> Suc m)"
proof -
  have h0: "astar_head g0 s t (astar_init g0 s t)" by (rule astar_head_init)
  from a_star_terminates[OF fin h0] obtain res where
    res: "a_star_loop (astar_init g0 s t) t = Some (Inr res)" by blast
  from a_star_loop_exit[OF res h0] obtain gr H G cnt C where
    h: "astar_head g0 s t (gr, H, G, cnt, C)" and
    ex: "H \<noteq> [] \<longrightarrow> (\<exists>f g c x H'. heappop H = ((f, g, c, x), H') \<and> key x \<notin> C \<and> is_goal x t \<and>
                return_path x (gr\<lparr>visited_cells := visited_cells gr @ [Cell (cell_i x) (cell_j x)]\<rparr>) = Some (Inr res))"
    by blast
  from astar_head_inv[OF h] have I: "as_inv g0 s t gr H G cnt C" by simp
  from astar_head_opt[OF con h] have O: "as_opt g0 s G C" by simp
  have ne: "H \<noteq> []"
  proof
    assume e: "H = []"
    from reach obtain m where "reach_in g0 s m t" unfolding reachable_def by blast
    from as_inv_exhausted[OF I[unfolded e] this] have "key t \<in> C" .
    with I show False unfolding as_inv_def as_common_def by auto
  qed
  let ?gr = "gr\<lparr>visited_cells := visited_cells gr @ [t]\<rparr>"
  from ne ex obtain f g c H' where pop: "heappop H = ((f, g, c, t), H')" and tC: "key t \<notin> C"
    and rp: "return_path t ?gr = Some (Inr res)"
    by (auto simp: is_goal_iff)
  note Gt = as_inv_popped_g[OF I ne pop tC]
  from I have "as_common g0 s t ?gr H G cnt C" by (simp add: as_inv_def as_common_def)
  from as_common_return_path[OF this Gt(1)] rp obtain p where
    p: "res = (?gr, p)" "path_from_to g0 s t p" "int (length p) = g + 1" by auto
  have "\<forall>m. reach_in g0 s m t \<longrightarrow> length p \<le> Suc m"
  proof (intro allI impI)
    fix m assume "reach_in g0 s m t"
    from as_opt_pop[OF I O con ne pop tC this] p(3) show "length p \<le> Suc m" by simp
  qed
  with res p show ?thesis by (auto simp: a_star_search_def)
qed

subsection \<open>The example grids\<close>

lemma reachable_subset:
  assumes "s \<in> R" "\<forall>c \<in> R. \<forall>n \<in> set (nbrs g c). n \<in> R"
  shows "reachable g s \<subseteq> R"
proof
  fix c assume "c \<in> reachable g s"
  then obtain m where "reach_in g s m c" unfolding reachable_def by blast
  then show "c \<in> R" by (induction rule: reach_in.induct) (use assms in auto)
qed

lemma path_reachable: "path_from_to g s t q \<Longrightarrow> t \<in> reachable g s"
  unfolding reachable_def using path_reach by blast

lemma open_grid_finite: "finite (reachable open_grid (Cell 0 0))"
proof -
  have "reachable open_grid (Cell 0 0) \<subseteq>
      set [Cell 0 0, Cell 0 1, Cell 0 2, Cell 1 0, Cell 1 1, Cell 1 2, Cell 2 0, Cell 2 1, Cell 2 2]"
    by (rule reachable_subset)
       (simp_all add: nbrs_def open_grid_def four_neighbors_def in_grid_def cell_of_def)
  then show ?thesis by (rule finite_subset) simp
qed


lemma open_grid_goal_reachable: "Cell 2 2 \<in> reachable open_grid (Cell 0 0)"
proof -
  have "path_from_to open_grid (Cell 0 0) (Cell 2 2) [Cell 0 0, Cell 1 0, Cell 2 0, Cell 2 1, Cell 2 2]"
    by (simp add: path_from_to_def nbrs_def open_grid_def four_neighbors_def in_grid_def cell_of_def)
  then show ?thesis by (rule path_reachable)
qed

subsection \<open>The parent dictionary at every moment of a run\<close>

lemma tree_inv_chain:
  assumes T: "tree_inv g0 s P r"
  shows "key c \<in> dom P \<Longrightarrow> parent_chain P (key c) (key s)"
proof (induction "r (key c)" arbitrary: c)
  case 0
  have "c = s"
  proof (rule ccontr)
    assume "c \<noteq> s"
    from 0(2) obtain v where "P (key c) = Some v" by auto
    from tree_inv_link[OF T this \<open>c \<noteq> s\<close>] 0(1) show False by auto
  qed
  with tree_inv_root[OF T] show ?case by (auto intro: chain_root)
next
  case (Suc m)
  from Suc.hyps(2) tree_inv_root[OF T] have ns: "c \<noteq> s" by auto
  from Suc.prems obtain v where v: "P (key c) = Some v" by auto
  from tree_inv_link[OF T v ns] obtain p where
    p: "v = Some p" "key p \<in> dom P" "r (key c) = Suc (r (key p))" by blast
  with Suc.hyps(2) have "m = r (key p)" by simp
  from Suc.hyps(1)[OF this p(2)] v p(1) show ?case by (auto intro: chain_link)
qed

lemma tree_inv_acyclic:
  assumes T: "tree_inv g0 s P r"
  shows "acyclic (parent_rel P)"
proof -
  have "(parent_rel P)\<inverse> \<subseteq> measure r"
  proof
    fix z assume "z \<in> (parent_rel P)\<inverse>"
    then obtain k p where z: "z = (key p, k)" and kp: "P k = Some (Some p)"
      by (auto simp: parent_rel_def)
    from kp tree_inv_root[OF T] have "cell_of k \<noteq> s" by auto
    from tree_inv_link[OF T _ this, of "Some p"] kp have "r k = Suc (r (key p))" by auto
    with z show "z \<in> measure r" by simp
  qed
  then have "wf ((parent_rel P)\<inverse>)" by (rule wf_subset[OF wf_measure])
  then have "acyclic ((parent_rel P)\<inverse>)" by (rule wf_acyclic)
  then show ?thesis by (simp only: acyclic_converse)
qed

lemma tree_inv_forest: "tree_inv g0 s P r \<Longrightarrow> forest_rooted P s"
  unfolding forest_rooted_def using tree_inv_acyclic tree_inv_chain
  by (metis key_cell_of)

lemma fs_during_common:
  assumes I: "fs_inv g0 s t g fr V r" and x: "x \<in> set fr" "\<not> is_goal x t"
    and fr': "set fr' \<subseteq> set fr" "set fr \<subseteq> insert x (set fr')"
    and f: "foldl (discover x) (g, fr', V) (take n (nbrs g x)) = (g', fr'', V')"
  shows "\<exists>r'. fs_common g0 s g' fr'' V' r'"
proof -
  from I have N: "nbrs g x = nbrs g0 x"
    by (intro nbrs_cong) (simp add: fs_inv_def fs_common_def)
  from x have "x \<noteq> t" by (simp add: is_goal_iff)
  from fs_inv_pop[OF I x(1) this fr'] have m: "fs_mid g0 s t x {} g fr' V r" .
  have "set (take n (nbrs g0 x)) \<subseteq> set (nbrs g0 x)" by (rule set_take_subset)
  from fs_mid_fold[OF m this, of g' fr'' V'] f N show ?thesis
    unfolding fs_mid_def by auto
qed

lemma butlast_sets:
  "stack \<noteq> [] \<Longrightarrow> last stack \<in> set stack \<and> set (butlast stack) \<subseteq> set stack \<and>
     set stack \<subseteq> insert (last stack) (set (butlast stack))"
  by (cases stack rule: rev_cases) auto

lemma tl_sets:
  "queue \<noteq> [] \<Longrightarrow> hd queue \<in> set queue \<and> set (tl queue) \<subseteq> set queue \<and>
     set queue \<subseteq> insert (hd queue) (set (tl queue))"
  by (cases queue) auto

lemma dfs_during_common:
  assumes "dfs_during g0 s t (g, fr, V)"
  shows "\<exists>r. fs_common g0 s g fr V r"
  using assms unfolding dfs_during_def
proof (elim disjE exE conjE)
  assume "dfs_head g0 s t (g, fr, V)"
  from dfs_head_inv[OF this] show ?thesis by (auto simp: fs_inv_def)
next
  fix g1 stack V1 n
  assume h: "dfs_head g0 s t (g1, stack, V1)" and ne: "stack \<noteq> []" and ng: "\<not> is_goal (last stack) t"
    and st: "(g, fr, V) = foldl (discover (last stack)) (g1, butlast stack, V1) (take n (nbrs g1 (last stack)))"
  from dfs_head_inv[OF h] obtain r where I: "fs_inv g0 s t g1 stack V1 r" by auto
  from butlast_sets[OF ne] fs_during_common[OF I _ ng _ _ st[symmetric]] show ?thesis by blast
qed

lemma bfs_during_common:
  assumes "bfs_during g0 s t (g, fr, V)"
  shows "\<exists>r. fs_common g0 s g fr V r"
  using assms unfolding bfs_during_def
proof (elim disjE exE conjE)
  assume "bfs_head g0 s t (g, fr, V)"
  from bfs_head_fs_inv[OF this] show ?thesis by (auto simp: fs_inv_def)
next
  fix g1 queue V1 n
  assume h: "bfs_head g0 s t (g1, queue, V1)" and ne: "queue \<noteq> []" and ng: "\<not> is_goal (hd queue) t"
    and st: "(g, fr, V) = foldl (discover (hd queue)) (g1, tl queue, V1) (take n (nbrs g1 (hd queue)))"
  from bfs_head_fs_inv[OF h] obtain r where I: "fs_inv g0 s t g1 queue V1 r" by auto
  from tl_sets[OF ne] fs_during_common[OF I _ ng _ _ st[symmetric]] show ?thesis by blast
qed

lemma astar_during_common:
  assumes "astar_during g0 s t (gr, H, G, cnt, C)"
  shows "as_common g0 s t gr H G cnt C"
  using assms unfolding astar_during_def
proof (elim disjE exE conjE)
  assume "astar_head g0 s t (gr, H, G, cnt, C)"
  from astar_head_inv[OF this] show ?thesis by (simp add: as_inv_def)
next
  fix gr1 H1 G1 cnt1 C1 f g c x H' n
  assume h: "astar_head g0 s t (gr1, H1, G1, cnt1, C1)" and ne: "H1 \<noteq> []"
    and pop: "heappop H1 = ((f, g, c, x), H')" and xC: "key x \<notin> C1" and ng: "\<not> is_goal x t"
    and st: "(gr, H, G, cnt, C) = foldl (relax x g t)
               (gr1\<lparr>visited_cells := visited_cells gr1 @ [Cell (cell_i x) (cell_j x)]\<rparr>,
                H', G1, cnt1, insert (key x) C1) (take n (nbrs gr1 x))"
  from astar_head_inv[OF h] have I: "as_inv g0 s t gr1 H1 G1 cnt1 C1" by simp
  then have N: "nbrs gr1 x = nbrs g0 x"
    by (intro nbrs_cong) (simp add: as_inv_def as_common_def)
  have "set (take n (nbrs g0 x)) \<subseteq> set (nbrs g0 x)" by (rule set_take_subset)
  from as_mid_fold[OF as_inv_pop[OF I ne pop xC ng] this, of _ gr H G cnt C] st N
  show ?thesis unfolding as_mid_def by auto
qed

subsection \<open>From a moment of a run to its result\<close>

lemma return_path_graph: "return_path c g = Some (Inr (g', p)) \<Longrightarrow> g' = g"
  by (auto simp: return_path_def split: option.splits sum.splits)











lemma fs_common_trace:
  assumes "fs_common g0 s g fr V r" "key c \<in> V"
  shows "\<exists>p. trace_path c g = Some (Inr p) \<and> path_from_to g0 s c p"
proof -
  from assms have "tree_inv g0 s (parent g) r" "find_neighbors g = find_neighbors g0" "key c \<in> dom (parent g)"
    by (simp_all add: fs_common_def)
  from trace_loop_tree[OF this, of "[]"] show ?thesis
    by (auto simp: trace_path_def)
qed

lemma as_common_trace:
  assumes Cm: "as_common g0 s t gr H G cnt C" and c: "key c \<in> dom (parent gr)"
  shows "\<exists>p. trace_path c gr = Some (Inr p) \<and> path_from_to g0 s c p"
proof -
  from Cm have N: "find_neighbors gr = find_neighbors g0"
    unfolding as_common_def by auto
  from trace_loop_tree[OF as_common_tree[OF Cm] N c, of "[]"]
  show ?thesis by (auto simp: trace_path_def)
qed

lemma dfs_returns:
  assumes "finite (reachable g0 s)"
  shows "\<exists>g p. depth_first_search g0 s t = Some (Inr (g, p))"
proof -
  obtain g1 fr1 V1 where i: "search_init g0 s = (g1, fr1, V1)" by (cases "search_init g0 s") auto
  have "dfs_head g0 s t (g1, fr1, V1)" using dfs_head_init[of g0 s t] i by simp
  from dfs_terminates[OF assms this] i show ?thesis by (auto simp: depth_first_search_def)
qed

lemma bfs_returns:
  assumes "finite (reachable g0 s)"
  shows "\<exists>g p. breadth_first_search g0 s t = Some (Inr (g, p))"
proof -
  obtain g1 fr1 V1 where i: "search_init g0 s = (g1, fr1, V1)" by (cases "search_init g0 s") auto
  have "bfs_head g0 s t (g1, fr1, V1)" using bfs_head_init[of g0 s t] i by simp
  from bfs_terminates[OF assms this] i show ?thesis by (auto simp: breadth_first_search_def)
qed

lemma astar_returns:
  assumes "finite (reachable g0 s)"
  shows "\<exists>g p. a_star_search g0 s t = Some (Inr (g, p))"
  using a_star_terminates[OF assms astar_head_init[of g0 s t]] by (auto simp: a_star_search_def)

subsection \<open>Runs on the example grids\<close>

lemma astar_head_next:
  assumes "astar_head g0 s t st" "\<not> astar_stops t st"
  shows "astar_head g0 s t (astar_next t st)"
proof -
  obtain gr H G cnt C where st: "st = (gr, H, G, cnt, C)" by (cases st) auto
  obtain f g c x H' where pop: "heappop H = ((f, g, c, x), H')" by (cases "heappop H") auto
  from assms(2) have ne: "H \<noteq> []" and ng: "key x \<in> C \<or> \<not> is_goal x t"
    by (auto simp: astar_stops_def st pop)
  show ?thesis
  proof (cases "key x \<in> C")
    case True
    from astar_head_skip[OF assms(1)[unfolded st] ne pop True] True show ?thesis
      by (simp add: astar_next_def st pop)
  next
    case False
    with ng have "\<not> is_goal x t" by simp
    from astar_head_step[OF assms(1)[unfolded st] ne pop False this] False show ?thesis
      by (simp add: astar_next_def st pop)
  qed
qed

lemma maze_state_Suc: "maze_state (Suc n) = astar_next (Cell 3 1) (maze_state n)"
  by (simp add: maze_state_def)

lemma maze_head_0: "astar_head maze_grid (Cell 0 2) (Cell 3 1) (maze_state 0)"
  by (simp add: maze_state_def astar_head_init)

lemma maze_not_stop: "\<not> astar_stops (Cell 3 1) (maze_state 0)" "\<not> astar_stops (Cell 3 1) (maze_state 1)"
  "\<not> astar_stops (Cell 3 1) (maze_state 2)" "\<not> astar_stops (Cell 3 1) (maze_state 3)"
  by code_simp+

lemma maze_heap_4: "fst (snd (maze_state 4)) = [(6, 3, 4, Cell 1 0), (6, 2, 5, Cell 1 3)]"
  by code_simp

lemma open_grid_unit_steps: "unit_steps open_grid"
  by (auto simp: unit_steps_def open_grid_def four_neighbors_def in_grid_def cell_of_def)

lemma first_discovery_eq:
  "first_discovery =
     ((fst (search_init open_grid (Cell 0 0)))
        \<lparr>parent := [key (Cell 0 0) \<mapsto> None, key (Cell 1 0) \<mapsto> Some (Cell 0 0)],
         visited_cells := [Cell 0 0, Cell 1 0]\<rparr>,
      [Cell 1 0], {key (Cell 1 0), key (Cell 0 0)})"
  by (simp add: first_discovery_def search_init_def init_graph_def Let_def nbrs_def open_grid_def
      four_neighbors_def in_grid_def cell_of_def discover_def key_def)

lemma first_discovery_dfs:
  "dfs_during open_grid (Cell 0 0) (Cell 2 2) first_discovery"
proof -
  have h: "dfs_head open_grid (Cell 0 0) (Cell 2 2) (fst (search_init open_grid (Cell 0 0)), [Cell 0 0], {key (Cell 0 0)})"
    using dfs_head_init[of open_grid "Cell 0 0" "Cell 2 2"] by (simp add: search_init_def Let_def)
  show ?thesis
    unfolding dfs_during_def first_discovery_def
    by (rule disjI2, rule exI[of _ "fst (search_init open_grid (Cell 0 0))"], rule exI[of _ "[Cell 0 0]"],
        rule exI[of _ "{key (Cell 0 0)}"], rule exI[of _ 1]) (use h in \<open>simp add: is_goal_def\<close>)
qed

lemma first_discovery_bfs:
  "bfs_during open_grid (Cell 0 0) (Cell 2 2) first_discovery"
proof -
  have h: "bfs_head open_grid (Cell 0 0) (Cell 2 2) (fst (search_init open_grid (Cell 0 0)), [Cell 0 0], {key (Cell 0 0)})"
    using bfs_head_init[of open_grid "Cell 0 0" "Cell 2 2"] by (simp add: search_init_def Let_def)
  show ?thesis
    unfolding bfs_during_def first_discovery_def
    by (rule disjI2, rule exI[of _ "fst (search_init open_grid (Cell 0 0))"], rule exI[of _ "[Cell 0 0]"],
        rule exI[of _ "{key (Cell 0 0)}"], rule exI[of _ 1]) (use h in \<open>simp add: is_goal_def\<close>)
qed

lemma first_relaxation_eq:
  "first_relaxation =
     ((fst (astar_init open_grid (Cell 0 0) (Cell 2 2)))
        \<lparr>visited_cells := [Cell 0 0],
         parent := [key (Cell 0 0) \<mapsto> None, key (Cell 1 0) \<mapsto> Some (Cell 0 0)]\<rparr>,
      [(4, 1, 1, Cell 1 0)], [key (Cell 0 0) \<mapsto> 0, key (Cell 1 0) \<mapsto> 1], 2, {key (Cell 0 0)})"
  by (simp add: first_relaxation_def astar_init_def init_graph_def Let_def nbrs_def open_grid_def
      four_neighbors_def in_grid_def cell_of_def relax_def key_def heappush_def heuristic_def)

lemma first_relaxation_astar:
  "astar_during open_grid (Cell 0 0) (Cell 2 2) first_relaxation"
proof -
  let ?g = "fst (astar_init open_grid (Cell 0 0) (Cell 2 2))"
  have i: "astar_init open_grid (Cell 0 0) (Cell 2 2) = (?g, [(4, 0, 0, Cell 0 0)], [key (Cell 0 0) \<mapsto> 0], 1, {})"
    by (simp add: astar_init_def Let_def heappush_def heuristic_def)
  have h: "astar_head open_grid (Cell 0 0) (Cell 2 2) (?g, [(4, 0, 0, Cell 0 0)], [key (Cell 0 0) \<mapsto> 0], 1, {})"
    using astar_head_init[of open_grid "Cell 0 0" "Cell 2 2"] i by simp
  have v: "visited_cells ?g = []" by (simp add: astar_init_def Let_def init_graph_def)
  show ?thesis
    unfolding astar_during_def first_relaxation_def
    by (rule disjI2, rule exI[of _ ?g], rule exI[of _ "[(4, 0, 0, Cell 0 0)]"],
        rule exI[of _ "[key (Cell 0 0) \<mapsto> 0]"], rule exI[of _ 1], rule exI[of _ "{}"],
        rule exI[of _ 4], rule exI[of _ 0], rule exI[of _ 0], rule exI[of _ "Cell 0 0"],
        rule exI[of _ "[]"], rule exI[of _ 1])
       (use h v in \<open>simp add: is_goal_def heappop_def nbrs_def\<close>)
qed

section \<open>The claims\<close>

subsection \<open>Shortest paths (C1, C2)\<close>

lemma unit_steps_consistent:
  assumes "unit_steps g"
  shows "consistent g t"
  unfolding consistent_def
proof (intro allI ballI)
  fix c n assume "n \<in> set (nbrs g c)"
  with assms have "\<bar>cell_i n - cell_i c\<bar> + \<bar>cell_j n - cell_j c\<bar> \<le> 1"
    unfolding unit_steps_def nbrs_def by blast
  then show "heuristic c t \<le> 1 + heuristic n t"
    unfolding heuristic_def by linarith
qed

lemma shortest_same_length:
  assumes "path_from_to g s t p" "\<forall>m. reach_in g s m t \<longrightarrow> length p \<le> Suc m"
    and "path_from_to g s t q" "\<forall>m. reach_in g s m t \<longrightarrow> length q \<le> Suc m"
  shows "length p = length q"
proof -
  have ne: "p \<noteq> []" "q \<noteq> []" using assms(1,3) by (auto simp: path_from_to_def)
  from assms(2) path_reach[OF assms(3)] ne have "length p \<le> length q" by fastforce
  moreover from assms(4) path_reach[OF assms(1)] ne have "length q \<le> length p" by fastforce
  ultimately show ?thesis by simp
qed

text \<open>
  Claim C1. On every graph where only finitely many cells can be reached from the start
  and the goal is among them, \<open>breadth_first_search\<close> returns a path from the start to
  the goal, and its number of edges (its length minus one) is at most that of every path
  from the start to the goal: it is the minimum edge count.
\<close>

theorem bfs_returns_shortest_path:
  assumes "finite (reachable graph start)" and "goal \<in> reachable graph start"
  shows "\<exists>g p. breadth_first_search graph start goal = Some (Inr (g, p)) \<and>
           path_from_to graph start goal p \<and>
           (\<forall>q. path_from_to graph start goal q \<longrightarrow> length p - 1 \<le> length q - 1)"
proof -
  from bfs_shortest[OF assms] obtain g p where
    p: "breadth_first_search graph start goal = Some (Inr (g, p))" "path_from_to graph start goal p"
       "\<forall>m. reach_in graph start m goal \<longrightarrow> length p \<le> Suc m"
    by blast
  have "length p - 1 \<le> length q - 1" if "path_from_to graph start goal q" for q
    using p(3) path_reach[OF that] by fastforce
  with p(1,2) show ?thesis by blast
qed

text \<open>
  The open 3 by 3 grid, from (0, 0) to (2, 2).
\<close>

theorem bfs_returns_shortest_path_witness:
  "finite (reachable open_grid (Cell 0 0)) \<and> Cell 2 2 \<in> reachable open_grid (Cell 0 0) \<and>
   (\<exists>g p. breadth_first_search open_grid (Cell 0 0) (Cell 2 2) = Some (Inr (g, p)) \<and>
      path_from_to open_grid (Cell 0 0) (Cell 2 2) p \<and>
      (\<forall>q. path_from_to open_grid (Cell 0 0) (Cell 2 2) q \<longrightarrow> length p - 1 \<le> length q - 1))"
  using bfs_returns_shortest_path[OF open_grid_finite open_grid_goal_reachable]
    open_grid_finite open_grid_goal_reachable
  by blast

text \<open>
  Claim C2, amended. When every neighbour that \<open>find_neighbors\<close> returns lies at
  Manhattan distance at most 1 from the cell it was asked for (moves along the four grid
  directions), and the goal can be reached from the start, \<open>a_star_search\<close> and
  \<open>breadth_first_search\<close> both return a path, and the two paths have the same length.
\<close>

theorem astar_same_length_as_bfs:
  assumes "finite (reachable graph start)" and "goal \<in> reachable graph start"
    and "unit_steps graph"
  shows "\<exists>ga pa gb pb. a_star_search graph start goal = Some (Inr (ga, pa)) \<and>
           breadth_first_search graph start goal = Some (Inr (gb, pb)) \<and>
           length pa = length pb"
proof -
  from astar_shortest[OF assms(1,2) unit_steps_consistent[OF assms(3)]] obtain ga pa where
    a: "a_star_search graph start goal = Some (Inr (ga, pa))" "path_from_to graph start goal pa"
       "\<forall>m. reach_in graph start m goal \<longrightarrow> length pa \<le> Suc m" by blast
  from bfs_shortest[OF assms(1,2)] obtain gb pb where
    b: "breadth_first_search graph start goal = Some (Inr (gb, pb))" "path_from_to graph start goal pb"
       "\<forall>m. reach_in graph start m goal \<longrightarrow> length pb \<le> Suc m" by blast
  from shortest_same_length[OF a(2,3) b(2,3)] a(1) b(1) show ?thesis by blast
qed

text \<open>
  The open 3 by 3 grid, from (0, 0) to (2, 2).
\<close>

theorem astar_same_length_as_bfs_witness:
  "finite (reachable open_grid (Cell 0 0)) \<and> Cell 2 2 \<in> reachable open_grid (Cell 0 0) \<and>
   unit_steps open_grid \<and>
   (\<exists>ga pa gb pb. a_star_search open_grid (Cell 0 0) (Cell 2 2) = Some (Inr (ga, pa)) \<and>
      breadth_first_search open_grid (Cell 0 0) (Cell 2 2) = Some (Inr (gb, pb)) \<and>
      length pa = length pb)"
  using astar_same_length_as_bfs[OF open_grid_finite open_grid_goal_reachable open_grid_unit_steps]
    open_grid_finite open_grid_goal_reachable open_grid_unit_steps
  by blast

text \<open>
  Claim C2 as stated, for every grid, fails when \<open>find_neighbors\<close> also returns the
  diagonal neighbours: on the 3 by 4 grid with the cell (1, 1) blocked, from (0, 0) to
  (2, 3), \<open>a_star_search\<close> returns a path of four edges and \<open>breadth_first_search\<close>
  one of three.
\<close>

theorem astar_longer_than_bfs_on_diagonal_grid:
  "map_option (map_sum id snd) (a_star_search diagonal_grid (Cell 0 0) (Cell 2 3)) =
     Some (Inr [Cell 0 0, Cell 1 0, Cell 2 1, Cell 2 2, Cell 2 3]) \<and>
   map_option (map_sum id snd) (breadth_first_search diagonal_grid (Cell 0 0) (Cell 2 3)) =
     Some (Inr [Cell 0 0, Cell 0 1, Cell 1 2, Cell 2 3])"
  by code_simp

subsection \<open>The order of the heap (C3)\<close>

lemma entry_key_less: "entry_key e < entry_key e' \<longleftrightarrow> entry_before e e'"
  by (cases e; cases e') (auto simp: entry_key_def entry_before_def less_prod_def less_eq_prod_def)

text \<open>
  Claim C3, amended. Whenever the loop of \<open>a_star_search\<close> pops its heap, the entry
  removed comes strictly before every other entry of the heap in this order: lower
  \<open>f\<close> first; among entries of equal \<open>f\<close>, lower \<open>g\<close> first; among entries equal in both, the
  lower counter (the earlier push) first.
\<close>

theorem heappop_takes_least_f_g_counter:
  assumes "astar_head graph start goal (gr, open_heap, g_cost, counter, closed)"
    and "open_heap \<noteq> []" and "heappop open_heap = (e, open_heap')"
  shows "e \<in> set open_heap \<and> open_heap' = remove1 e open_heap \<and>
         (\<forall>e' \<in> set open_heap. e' \<noteq> e \<longrightarrow> entry_before e e')"
proof -
  note hp = heappop_props[OF assms(2,3)]
  from astar_head_inv[OF assms(1)] have d: "distinct (map (\<lambda>e. fst (snd (snd e))) open_heap)"
    by (simp add: as_inv_def as_common_def)
  have "entry_before e e'" if "e' \<in> set open_heap" "e' \<noteq> e" for e'
  proof -
    from d have "inj_on (\<lambda>e. fst (snd (snd e))) (set open_heap)" by (simp add: distinct_map)
    with that hp(1) have "fst (snd (snd e')) \<noteq> fst (snd (snd e))" by (auto dest: inj_onD)
    then have "entry_key e \<noteq> entry_key e'" by (cases e; cases e') (auto simp: entry_key_def)
    with hp(3) that(1) have "entry_key e < entry_key e'" by fastforce
    then show ?thesis by (simp add: entry_key_less)
  qed
  with hp(1,2) show ?thesis by blast
qed

lemma maze_head_4: "astar_head maze_grid (Cell 0 2) (Cell 3 1) (maze_state 4)"
proof -
  note h0 = maze_head_0
  have h1: "astar_head maze_grid (Cell 0 2) (Cell 3 1) (maze_state 1)"
    using astar_head_next[OF h0 maze_not_stop(1)] by (simp add: maze_state_Suc[symmetric])
  have h2: "astar_head maze_grid (Cell 0 2) (Cell 3 1) (maze_state 2)"
    using astar_head_next[OF h1 maze_not_stop(2)] maze_state_Suc[of 1] by (simp add: numeral_2_eq_2)
  have h3: "astar_head maze_grid (Cell 0 2) (Cell 3 1) (maze_state 3)"
    using astar_head_next[OF h2 maze_not_stop(3)] maze_state_Suc[of 2] by (simp add: numeral_3_eq_3 numeral_2_eq_2)
  show ?thesis
    using astar_head_next[OF h3 maze_not_stop(4)] maze_state_Suc[of 3] by (simp add: eval_nat_numeral)
qed

text \<open>
  The heap after four iterations of the loop on the 4 by 4 grid \<open>maze_grid\<close>, from (0, 2)
  to (3, 1).
\<close>

theorem heappop_takes_least_f_g_counter_witness:
  "astar_head maze_grid (Cell 0 2) (Cell 3 1) (maze_state 4) \<and>
   fst (snd (maze_state 4)) = [(6, 3, 4, Cell 1 0), (6, 2, 5, Cell 1 3)] \<and>
   heappop [(6, 3, 4, Cell 1 0), (6, 2, 5, Cell 1 3)] = ((6, 2, 5, Cell 1 3), [(6, 3, 4, Cell 1 0)]) \<and>
   entry_before (6, 2, 5, Cell 1 3) (6, 3, 4, Cell 1 0)"
proof -
  obtain gr H G cnt C where st: "maze_state 4 = (gr, H, G, cnt, C)" by (cases "maze_state 4") auto
  with maze_heap_4 have H: "H = [(6, 3, 4, Cell 1 0), (6, 2, 5, Cell 1 3)]" by simp
  have pop: "heappop H = ((6, 2, 5, Cell 1 3), [(6, 3, 4, Cell 1 0)])"
    unfolding H by code_simp
  have h: "astar_head maze_grid (Cell 0 2) (Cell 3 1) (gr, H, G, cnt, C)"
    using maze_head_4 st by simp
  from heappop_takes_least_f_g_counter[OF h _ pop] H
  have "entry_before (6, 2, 5, Cell 1 3) (6, 3, 4, Cell 1 0)" by simp
  with maze_head_4 maze_heap_4 pop H show ?thesis by simp
qed

text \<open>
  Claim C3 as stated, ties in \<open>f\<close> broken by the insertion counter alone, fails: after
  four iterations on \<open>maze_grid\<close> the heap holds two entries with \<open>f = 6\<close>, pushed with
  the counters 4 and 5, and the pop removes the one with counter 5, whose \<open>g\<close> is lower.
\<close>

theorem heappop_prefers_lower_g_over_earlier_push:
  "astar_head maze_grid (Cell 0 2) (Cell 3 1) (maze_state 4) \<and>
   fst (snd (maze_state 4)) = [(6, 3, 4, Cell 1 0), (6, 2, 5, Cell 1 3)] \<and>
   fst (heappop (fst (snd (maze_state 4)))) = (6, 2, 5, Cell 1 3)"
proof -
  have "fst (heappop (fst (snd (maze_state 4)))) = (6, 2, 5, Cell 1 3)"
    unfolding maze_heap_4 by code_simp
  with maze_head_4 maze_heap_4 show ?thesis by simp
qed

subsection \<open>Unreachable goal, start equal to goal (C4, C5)\<close>








lemma trace_path_root: "parent g (key c) = Some None \<Longrightarrow> trace_path c g = Some (Inr [c])"
  unfolding trace_path_def by (subst trace_loop.simps) simp

lemma return_path_root: "parent g (key c) = Some None \<Longrightarrow> return_path c g = Some (Inr (g, [c]))"
  by (simp add: return_path_def trace_path_root)

text \<open>
  Claim C5. When the start has the coordinates of the goal, each of the three searches
  returns the path \<open>[start]\<close>, on every graph.
\<close>

theorem start_equals_goal_gives_single_cell:
  assumes "cell_i start = cell_i goal" and "cell_j start = cell_j goal"
  shows "(\<exists>g. depth_first_search graph start goal = Some (Inr (g, [start]))) \<and>
         (\<exists>g. breadth_first_search graph start goal = Some (Inr (g, [start]))) \<and>
         (\<exists>g. a_star_search graph start goal = Some (Inr (g, [start])))"
proof -
  from assms have g: "is_goal start goal" by (simp add: is_goal_def)
  have 1: "\<exists>g. depth_first_search graph start goal = Some (Inr (g, [start]))"
    unfolding depth_first_search_def search_init_def Let_def
    by (subst dfs_loop.simps) (simp add: g return_path_root)
  have 2: "\<exists>g. breadth_first_search graph start goal = Some (Inr (g, [start]))"
    unfolding breadth_first_search_def search_init_def Let_def
    by (subst bfs_loop.simps) (simp add: g return_path_root)
  have 3: "\<exists>g. a_star_search graph start goal = Some (Inr (g, [start]))"
    unfolding a_star_search_def astar_init_def Let_def
    by (subst a_star_loop.simps) (simp add: g return_path_root heappush_def heappop_def)
  from 1 2 3 show ?thesis by blast
qed

text \<open>
  The open 3 by 3 grid, start and goal (1, 1).
\<close>

theorem start_equals_goal_gives_single_cell_witness:
  "cell_i (Cell 1 1) = cell_i (Cell 1 1) \<and> cell_j (Cell 1 1) = cell_j (Cell 1 1) \<and>
   (\<exists>g. depth_first_search open_grid (Cell 1 1) (Cell 1 1) = Some (Inr (g, [Cell 1 1]))) \<and>
   (\<exists>g. breadth_first_search open_grid (Cell 1 1) (Cell 1 1) = Some (Inr (g, [Cell 1 1]))) \<and>
   (\<exists>g. a_star_search open_grid (Cell 1 1) (Cell 1 1) = Some (Inr (g, [Cell 1 1])))"
  using start_equals_goal_gives_single_cell[of "Cell 1 1" "Cell 1 1" open_grid] by simp

subsection \<open>The parent forest (C6, C10)\<close>

lemma discover_writes_once:
  assumes "dom (parent g) = V"
  shows "parent (fst (discover cur (g, fr, V) nbr)) = parent g \<or>
         (key nbr \<notin> dom (parent g) \<and>
          parent (fst (discover cur (g, fr, V) nbr)) = (parent g)(key nbr \<mapsto> Some cur))"
  using assms by (auto simp: discover_def)

lemma relax_writes_cheaper:
  "parent (fst (relax cur gc goal (gr, H, G, cnt, C) nbr)) = parent gr \<or>
   ((case G (key nbr) of None \<Rightarrow> True | Some old \<Rightarrow> gc + 1 < old) \<and>
    parent (fst (relax cur gc goal (gr, H, G, cnt, C) nbr)) = (parent gr)(key nbr \<mapsto> Some cur))"
  by (auto simp: relax_def Let_def)

lemma fs_common_forest: "fs_common g0 s g fr V r \<Longrightarrow> forest_rooted (parent g) s"
  unfolding fs_common_def using tree_inv_forest by blast

text \<open>
  Claim C6. At every moment of a run, at the head of the loop and after each neighbour
  inside it, the parent dictionary is a forest rooted at the start: its links form no
  cycle and the chain of links from every cell that has an entry ends at the start, whose
  entry is \<open>None\<close>. The neighbour step of depth-first and breadth-first search leaves the
  dictionary as it is or writes an entry for a cell that had none; the neighbour step of
  A* leaves it as it is or writes the entry of a cell that had no cost yet or whose
  recorded cost is strictly above the new one.
\<close>

theorem parent_links_form_forest:
  "(dfs_during graph start goal (g, stack, visited) \<longrightarrow>
      forest_rooted (parent g) start \<and>
      (parent (fst (discover cur (g, stack, visited) nbr)) = parent g \<or>
       (key nbr \<notin> dom (parent g) \<and>
        parent (fst (discover cur (g, stack, visited) nbr)) = (parent g)(key nbr \<mapsto> Some cur)))) \<and>
   (bfs_during graph start goal (g', queue, visited') \<longrightarrow>
      forest_rooted (parent g') start \<and>
      (parent (fst (discover cur (g', queue, visited') nbr)) = parent g' \<or>
       (key nbr \<notin> dom (parent g') \<and>
        parent (fst (discover cur (g', queue, visited') nbr)) = (parent g')(key nbr \<mapsto> Some cur)))) \<and>
   (astar_during graph start goal (gr, open_heap, g_cost, counter, closed) \<longrightarrow>
      forest_rooted (parent gr) start \<and>
      (parent (fst (relax cur gc goal (gr, open_heap, g_cost, counter, closed) nbr)) = parent gr \<or>
       ((case g_cost (key nbr) of None \<Rightarrow> True | Some old \<Rightarrow> gc + 1 < old) \<and>
        parent (fst (relax cur gc goal (gr, open_heap, g_cost, counter, closed) nbr)) =
          (parent gr)(key nbr \<mapsto> Some cur))))"
proof (intro conjI impI)
  assume "dfs_during graph start goal (g, stack, visited)"
  from dfs_during_common[OF this] obtain r where c: "fs_common graph start g stack visited r" by blast
  then show "forest_rooted (parent g) start" by (rule fs_common_forest)
  from c have "dom (parent g) = visited" by (simp add: fs_common_def)
  then show "parent (fst (discover cur (g, stack, visited) nbr)) = parent g \<or>
       (key nbr \<notin> dom (parent g) \<and>
        parent (fst (discover cur (g, stack, visited) nbr)) = (parent g)(key nbr \<mapsto> Some cur))"
    by (rule discover_writes_once)
next
  assume "bfs_during graph start goal (g', queue, visited')"
  from bfs_during_common[OF this] obtain r where c: "fs_common graph start g' queue visited' r" by blast
  then show "forest_rooted (parent g') start" by (rule fs_common_forest)
  from c have "dom (parent g') = visited'" by (simp add: fs_common_def)
  then show "parent (fst (discover cur (g', queue, visited') nbr)) = parent g' \<or>
       (key nbr \<notin> dom (parent g') \<and>
        parent (fst (discover cur (g', queue, visited') nbr)) = (parent g')(key nbr \<mapsto> Some cur))"
    by (rule discover_writes_once)
next
  assume "astar_during graph start goal (gr, open_heap, g_cost, counter, closed)"
  from astar_during_common[OF this] have "as_common graph start goal gr open_heap g_cost counter closed" .
  from tree_inv_forest[OF as_common_tree[OF this]] show "forest_rooted (parent gr) start" .
next
  show "parent (fst (relax cur gc goal (gr, open_heap, g_cost, counter, closed) nbr)) = parent gr \<or>
       ((case g_cost (key nbr) of None \<Rightarrow> True | Some old \<Rightarrow> gc + 1 < old) \<and>
        parent (fst (relax cur gc goal (gr, open_heap, g_cost, counter, closed) nbr)) =
          (parent gr)(key nbr \<mapsto> Some cur))"
    by (rule relax_writes_cheaper)
qed

text \<open>
  The open 3 by 3 grid, from (0, 0) to (2, 2), after the first neighbour of the start has
  been handled: \<open>first_discovery\<close> in depth-first and breadth-first search,
  \<open>first_relaxation\<close> in A*.
\<close>

theorem parent_links_form_forest_witness:
  "dfs_during open_grid (Cell 0 0) (Cell 2 2) first_discovery \<and>
   bfs_during open_grid (Cell 0 0) (Cell 2 2) first_discovery \<and>
   astar_during open_grid (Cell 0 0) (Cell 2 2) first_relaxation \<and>
   forest_rooted (parent (fst first_discovery)) (Cell 0 0) \<and>
   forest_rooted (parent (fst first_relaxation)) (Cell 0 0)"
proof -
  note T = parent_links_form_forest[where graph = open_grid and start = "Cell 0 0" and goal = "Cell 2 2"
      and g = "fst first_discovery" and stack = "fst (snd first_discovery)"
      and visited = "snd (snd first_discovery)"
      and g' = "fst first_discovery" and queue = "fst (snd first_discovery)"
      and visited' = "snd (snd first_discovery)"
      and gr = "fst first_relaxation" and open_heap = "fst (snd first_relaxation)"
      and g_cost = "fst (snd (snd first_relaxation))" and counter = "fst (snd (snd (snd first_relaxation)))"
      and closed = "snd (snd (snd (snd first_relaxation)))"]
  from T first_discovery_dfs first_relaxation_astar
  have "forest_rooted (parent (fst first_discovery)) (Cell 0 0)"
    "forest_rooted (parent (fst first_relaxation)) (Cell 0 0)" by simp_all
  with first_discovery_dfs first_discovery_bfs first_relaxation_astar show ?thesis by simp
qed

lemma path_from_to_ends: "path_from_to g s c p \<Longrightarrow> hd p = s \<and> last p = c"
  by (simp add: path_from_to_def)

lemma astar_during_start:
  assumes "astar_during g0 s t (gr, H, G, cnt, C)"
  shows "key s \<in> C \<or> (\<forall>e \<in> set H. snd (snd (snd e)) = s)"
  using assms unfolding astar_during_def
proof (elim disjE exE conjE)
  assume "astar_head g0 s t (gr, H, G, cnt, C)"
  from astar_head_inv[OF this] show ?thesis by (simp add: as_inv_def)
next
  fix gr1 H1 G1 cnt1 C1 f g c x H' n
  assume h: "astar_head g0 s t (gr1, H1, G1, cnt1, C1)" and ne: "H1 \<noteq> []"
    and pop: "heappop H1 = ((f, g, c, x), H')" and xC: "key x \<notin> C1" and ng: "\<not> is_goal x t"
    and st: "(gr, H, G, cnt, C) = foldl (relax x g t)
               (gr1\<lparr>visited_cells := visited_cells gr1 @ [Cell (cell_i x) (cell_j x)]\<rparr>,
                H', G1, cnt1, insert (key x) C1) (take n (nbrs gr1 x))"
  from astar_head_inv[OF h] have I: "as_inv g0 s t gr1 H1 G1 cnt1 C1" by simp
  then have N: "nbrs gr1 x = nbrs g0 x"
    by (intro nbrs_cong) (simp add: as_inv_def as_common_def)
  have "set (take n (nbrs g0 x)) \<subseteq> set (nbrs g0 x)" by (rule set_take_subset)
  from as_mid_fold[OF as_inv_pop[OF I ne pop xC ng] this, of _ gr H G cnt C] st N
  show ?thesis unfolding as_mid_def by auto
qed

text \<open>
  Claim C10. The initial state of each search gives the start the parent \<open>None\<close>. At
  every later moment of a run the start still has the parent \<open>None\<close>: in depth-first and
  breadth-first search the start is in \<open>visited\<close> throughout, and in A* the start is
  closed or is the cell of every heap entry (so it is the first cell popped). From every
  cell that has a parent entry, walking the parent links backward ends at the start:
  \<open>trace_path\<close> returns a path that begins with the start.
\<close>

theorem start_parent_stays_none:
  "parent (fst (search_init graph start)) (key start) = Some None \<and>
   parent (fst (astar_init graph start goal)) (key start) = Some None \<and>
   (dfs_during graph start goal (g, stack, visited) \<longrightarrow>
      parent g (key start) = Some None \<and> key start \<in> visited \<and>
      (key c \<in> dom (parent g) \<longrightarrow> (\<exists>p. trace_path c g = Some (Inr p) \<and> hd p = start \<and> last p = c))) \<and>
   (bfs_during graph start goal (g', queue, visited') \<longrightarrow>
      parent g' (key start) = Some None \<and> key start \<in> visited' \<and>
      (key c \<in> dom (parent g') \<longrightarrow> (\<exists>p. trace_path c g' = Some (Inr p) \<and> hd p = start \<and> last p = c))) \<and>
   (astar_during graph start goal (gr, open_heap, g_cost, counter, closed) \<longrightarrow>
      parent gr (key start) = Some None \<and>
      (key start \<in> closed \<or> (\<forall>e \<in> set open_heap. snd (snd (snd e)) = start)) \<and>
      (key c \<in> dom (parent gr) \<longrightarrow> (\<exists>p. trace_path c gr = Some (Inr p) \<and> hd p = start \<and> last p = c)))"
proof (intro conjI impI)
  show "parent (fst (search_init graph start)) (key start) = Some None"
    by (simp add: search_init_def Let_def)
  show "parent (fst (astar_init graph start goal)) (key start) = Some None"
    by (simp add: astar_init_def Let_def)
next
  assume "dfs_during graph start goal (g, stack, visited)"
  from dfs_during_common[OF this] obtain r where cm: "fs_common graph start g stack visited r" by blast
  then show "parent g (key start) = Some None" unfolding fs_common_def using tree_inv_root by blast
  from fs_common_start[OF cm] show "key start \<in> visited" by simp
  assume "key c \<in> dom (parent g)"
  with cm have "key c \<in> visited" by (simp add: fs_common_def)
  from fs_common_trace[OF cm this] show "\<exists>p. trace_path c g = Some (Inr p) \<and> hd p = start \<and> last p = c"
    using path_from_to_ends by blast
next
  assume "bfs_during graph start goal (g', queue, visited')"
  from bfs_during_common[OF this] obtain r where cm: "fs_common graph start g' queue visited' r" by blast
  then show "parent g' (key start) = Some None" unfolding fs_common_def using tree_inv_root by blast
  from fs_common_start[OF cm] show "key start \<in> visited'" by simp
  assume "key c \<in> dom (parent g')"
  with cm have "key c \<in> visited'" by (simp add: fs_common_def)
  from fs_common_trace[OF cm this] show "\<exists>p. trace_path c g' = Some (Inr p) \<and> hd p = start \<and> last p = c"
    using path_from_to_ends by blast
next
  assume d: "astar_during graph start goal (gr, open_heap, g_cost, counter, closed)"
  from astar_during_common[OF d] have cm: "as_common graph start goal gr open_heap g_cost counter closed" .
  then show "parent gr (key start) = Some None" by (simp add: as_common_def)
  from astar_during_start[OF d]
  show "key start \<in> closed \<or> (\<forall>e \<in> set open_heap. snd (snd (snd e)) = start)" .
  assume "key c \<in> dom (parent gr)"
  from as_common_trace[OF cm this] show "\<exists>p. trace_path c gr = Some (Inr p) \<and> hd p = start \<and> last p = c"
    using path_from_to_ends by blast
qed

text \<open>
  The open 3 by 3 grid, from (0, 0) to (2, 2), after the first neighbour of the start has
  been handled: the chain from the cell (1, 0) ends at the start.
\<close>

theorem start_parent_stays_none_witness:
  "dfs_during open_grid (Cell 0 0) (Cell 2 2) first_discovery \<and>
   bfs_during open_grid (Cell 0 0) (Cell 2 2) first_discovery \<and>
   astar_during open_grid (Cell 0 0) (Cell 2 2) first_relaxation \<and>
   parent (fst first_discovery) (key (Cell 0 0)) = Some None \<and>
   (\<exists>p. trace_path (Cell 1 0) (fst first_discovery) = Some (Inr p) \<and>
        hd p = Cell 0 0 \<and> last p = Cell 1 0) \<and>
   parent (fst first_relaxation) (key (Cell 0 0)) = Some None \<and>
   (\<exists>p. trace_path (Cell 1 0) (fst first_relaxation) = Some (Inr p) \<and>
        hd p = Cell 0 0 \<and> last p = Cell 1 0)"
proof -
  have dg: "key (Cell 1 0) \<in> dom (parent (fst first_discovery))"
    by (simp add: first_discovery_eq)
  have dgr: "key (Cell 1 0) \<in> dom (parent (fst first_relaxation))"
    by (simp add: first_relaxation_eq)
  note T = start_parent_stays_none[where graph = open_grid and start = "Cell 0 0" and goal = "Cell 2 2"
      and g = "fst first_discovery" and stack = "fst (snd first_discovery)"
      and visited = "snd (snd first_discovery)"
      and g' = "fst first_discovery" and queue = "fst (snd first_discovery)"
      and visited' = "snd (snd first_discovery)"
      and gr = "fst first_relaxation" and open_heap = "fst (snd first_relaxation)"
      and g_cost = "fst (snd (snd first_relaxation))" and counter = "fst (snd (snd (snd first_relaxation)))"
      and closed = "snd (snd (snd (snd first_relaxation)))"
      and c = "Cell 1 0"]
  from T first_discovery_dfs dg
  have 1: "parent (fst first_discovery) (key (Cell 0 0)) = Some None"
    "\<exists>p. trace_path (Cell 1 0) (fst first_discovery) = Some (Inr p) \<and> hd p = Cell 0 0 \<and> last p = Cell 1 0"
    by simp_all
  from T first_relaxation_astar dgr
  have 2: "parent (fst first_relaxation) (key (Cell 0 0)) = Some None"
    "\<exists>p. trace_path (Cell 1 0) (fst first_relaxation) = Some (Inr p) \<and> hd p = Cell 0 0 \<and> last p = Cell 1 0"
    by simp_all
  from 1 2 first_discovery_dfs first_discovery_bfs first_relaxation_astar show ?thesis by simp
qed

subsection \<open>The path reconstructor is called on discovered cells (C8)\<close>

lemma dfs_no_error: "depth_first_search g0 s t \<noteq> Some (Inl e)"
proof
  assume a: "depth_first_search g0 s t = Some (Inl e)"
  have h0: "dfs_head g0 s t (search_init g0 s)" by (rule dfs_head_init)
  from a have "dfs_loop (search_init g0 s) t = Some (Inl e)" by (simp add: depth_first_search_def)
  from dfs_loop_exit[OF this h0] obtain g fr V where
    h: "dfs_head g0 s t (g, fr, V)" and e: "fr = [] \<longrightarrow> Inl e = Inr (g, [])"
    and ne: "fr \<noteq> [] \<longrightarrow> return_path (last fr) g = Some (Inl e)"
    by blast
  from e have n: "fr \<noteq> []" by auto
  from dfs_head_inv[OF h] obtain r where I: "fs_inv g0 s t g fr V r" by auto
  with n have "key (last fr) \<in> V" unfolding fs_inv_def fs_common_def by (metis last_in_set)
  from fs_inv_return_path[OF I this] ne n show False by auto
qed

lemma bfs_no_error: "breadth_first_search g0 s t \<noteq> Some (Inl e)"
proof
  assume a: "breadth_first_search g0 s t = Some (Inl e)"
  have h0: "bfs_head g0 s t (search_init g0 s)" by (rule bfs_head_init)
  from a have "bfs_loop (search_init g0 s) t = Some (Inl e)" by (simp add: breadth_first_search_def)
  from bfs_loop_exit[OF this h0] obtain g fr V where
    h: "bfs_head g0 s t (g, fr, V)" and e: "fr = [] \<longrightarrow> Inl e = Inr (g, [])"
    and ne: "fr \<noteq> [] \<longrightarrow> return_path (hd fr) g = Some (Inl e)"
    by blast
  from e have n: "fr \<noteq> []" by auto
  from bfs_head_fs_inv[OF h] obtain r where I: "fs_inv g0 s t g fr V r" by auto
  with n have "key (hd fr) \<in> V" unfolding fs_inv_def fs_common_def by (metis list.set_sel(1))
  from fs_inv_return_path[OF I this] ne n show False by auto
qed

lemma astar_popped_trace:
  assumes h: "astar_head g0 s t (gr, H, G, cnt, C)" and ne: "H \<noteq> []"
    and pop: "heappop H = ((f, g, c, x), H')"
  shows "key x \<in> dom (parent gr) \<and> (\<exists>p. return_path x (gr\<lparr>visited_cells := vc\<rparr>) = Some (Inr (gr\<lparr>visited_cells := vc\<rparr>, p)))"
proof -
  from astar_head_inv[OF h] have cm: "as_common g0 s t gr H G cnt C" by (simp add: as_inv_def)
  from heappop_props(1)[OF ne pop] cm have "entry_ok t G cnt (f, g, c, x)"
    unfolding as_common_def by blast
  then obtain g' where g': "G (key x) = Some g'" by (auto simp: entry_ok_def)
  with cm have d: "key x \<in> dom (parent gr)" unfolding as_common_def by blast
  from cm have "as_common g0 s t (gr\<lparr>visited_cells := vc\<rparr>) H G cnt C" by (simp add: as_common_def)
  from as_common_return_path[OF this g'] d show ?thesis by blast
qed

lemma astar_no_error: "a_star_search g0 s t \<noteq> Some (Inl e)"
proof
  assume a: "a_star_search g0 s t = Some (Inl e)"
  have h0: "astar_head g0 s t (astar_init g0 s t)" by (rule astar_head_init)
  from a have "a_star_loop (astar_init g0 s t) t = Some (Inl e)" by (simp add: a_star_search_def)
  from a_star_loop_exit[OF this h0] obtain gr H G cnt C where
    h: "astar_head g0 s t (gr, H, G, cnt, C)" and e: "H = [] \<longrightarrow> Inl e = Inr (gr, [])"
    and ne: "H \<noteq> [] \<longrightarrow> (\<exists>f g c x H'. heappop H = ((f, g, c, x), H') \<and>
        return_path x (gr\<lparr>visited_cells := visited_cells gr @ [Cell (cell_i x) (cell_j x)]\<rparr>) = Some (Inl e))"
    by blast
  from e have n: "H \<noteq> []" by auto
  with ne obtain f g c x H' where pop: "heappop H = ((f, g, c, x), H')"
    and r: "return_path x (gr\<lparr>visited_cells := visited_cells gr @ [Cell (cell_i x) (cell_j x)]\<rparr>) = Some (Inl e)"
    by blast
  from astar_popped_trace[OF h n pop, of "visited_cells gr @ [Cell (cell_i x) (cell_j x)]"] r
  show False by auto
qed

lemma return_path_trace:
  "return_path c g = Some (Inr (g', p)) \<Longrightarrow> trace_path c g = Some (Inr p)"
  by (auto simp: return_path_def split: option.splits sum.splits)

text \<open>
  Claim C8. Whenever a loop is about to pop a cell (the only cells \<open>trace_path\<close> is ever
  called on are popped cells that match the goal), every cell of the stack or queue, and
  the cell of the heap entry popped, has an entry in the parent dictionary, and
  \<open>trace_path\<close> on the popped cell returns a path. No search returns the error of a cell
  without a parent entry.
\<close>

theorem trace_path_only_on_cells_with_parent:
  "(dfs_head graph start goal (g, stack, visited) \<longrightarrow> stack \<noteq> [] \<longrightarrow>
      (\<forall>x \<in> set stack. key x \<in> dom (parent g)) \<and>
      (\<exists>p. trace_path (last stack) g = Some (Inr p))) \<and>
   (bfs_head graph start goal (g', queue, visited') \<longrightarrow> queue \<noteq> [] \<longrightarrow>
      (\<forall>x \<in> set queue. key x \<in> dom (parent g')) \<and>
      (\<exists>p. trace_path (hd queue) g' = Some (Inr p))) \<and>
   (astar_head graph start goal (gr, open_heap, g_cost, counter, closed) \<longrightarrow> open_heap \<noteq> [] \<longrightarrow>
      heappop open_heap = ((f, gc, n, current), open_heap') \<longrightarrow>
      key current \<in> dom (parent gr) \<and>
      (\<exists>p. trace_path current
              (gr\<lparr>visited_cells := visited_cells gr @ [Cell (cell_i current) (cell_j current)]\<rparr>) =
            Some (Inr p))) \<and>
   depth_first_search graph start goal \<noteq> Some (Inl e) \<and>
   breadth_first_search graph start goal \<noteq> Some (Inl e) \<and>
   a_star_search graph start goal \<noteq> Some (Inl e)"
proof (intro conjI impI)
  assume h: "dfs_head graph start goal (g, stack, visited)" and ne: "stack \<noteq> []"
  from dfs_head_inv[OF h] obtain r where I: "fs_inv graph start goal g stack visited r" by auto
  then show "\<forall>x \<in> set stack. key x \<in> dom (parent g)" by (simp add: fs_inv_def fs_common_def)
  from I ne have "key (last stack) \<in> visited" unfolding fs_inv_def fs_common_def by (metis last_in_set)
  from fs_inv_return_path[OF I this] show "\<exists>p. trace_path (last stack) g = Some (Inr p)"
    using return_path_trace by blast
next
  assume h: "bfs_head graph start goal (g', queue, visited')" and ne: "queue \<noteq> []"
  from bfs_head_fs_inv[OF h] obtain r where I: "fs_inv graph start goal g' queue visited' r" by auto
  then show "\<forall>x \<in> set queue. key x \<in> dom (parent g')" by (simp add: fs_inv_def fs_common_def)
  from I ne have "key (hd queue) \<in> visited'" unfolding fs_inv_def fs_common_def by (metis list.set_sel(1))
  from fs_inv_return_path[OF I this] show "\<exists>p. trace_path (hd queue) g' = Some (Inr p)"
    using return_path_trace by blast
next
  assume h: "astar_head graph start goal (gr, open_heap, g_cost, counter, closed)" and ne: "open_heap \<noteq> []"
    and pop: "heappop open_heap = ((f, gc, n, current), open_heap')"
  note t = astar_popped_trace[OF h ne pop, of "visited_cells gr @ [Cell (cell_i current) (cell_j current)]"]
  from t show "key current \<in> dom (parent gr)" by simp
  from t show "\<exists>p. trace_path current
              (gr\<lparr>visited_cells := visited_cells gr @ [Cell (cell_i current) (cell_j current)]\<rparr>) =
            Some (Inr p)"
    using return_path_trace by blast
qed (rule dfs_no_error bfs_no_error astar_no_error)+

text \<open>The open 3 by 3 grid with start and goal (0, 0), at the first pop of each loop.\<close>

theorem trace_path_only_on_cells_with_parent_witness:
  "key (Cell 0 0) \<in> dom (parent (fst (search_init open_grid (Cell 0 0)))) \<and>
   (\<exists>p. trace_path (Cell 0 0) (fst (search_init open_grid (Cell 0 0))) = Some (Inr p)) \<and>
   key (Cell 0 0) \<in> dom (parent (fst (astar_init open_grid (Cell 0 0) (Cell 0 0)))) \<and>
   (\<exists>p. trace_path (Cell 0 0)
          ((fst (astar_init open_grid (Cell 0 0) (Cell 0 0)))\<lparr>visited_cells := [Cell 0 0]\<rparr>) =
        Some (Inr p)) \<and>
   depth_first_search open_grid (Cell 0 0) (Cell 0 0) \<noteq> Some (Inl No_parent_entry) \<and>
   breadth_first_search open_grid (Cell 0 0) (Cell 0 0) \<noteq> Some (Inl No_parent_entry) \<and>
   a_star_search open_grid (Cell 0 0) (Cell 0 0) \<noteq> Some (Inl No_parent_entry)"
proof -
  let ?g = "fst (search_init open_grid (Cell 0 0))"
  let ?ga = "fst (astar_init open_grid (Cell 0 0) (Cell 0 0))"
  have hd: "dfs_head open_grid (Cell 0 0) (Cell 0 0) (?g, [Cell 0 0], {key (Cell 0 0)})"
    using dfs_head_init[of open_grid "Cell 0 0" "Cell 0 0"] by (simp add: search_init_def Let_def)
  have hb: "bfs_head open_grid (Cell 0 0) (Cell 0 0) (?g, [Cell 0 0], {key (Cell 0 0)})"
    using bfs_head_init[of open_grid "Cell 0 0" "Cell 0 0"] by (simp add: search_init_def Let_def)
  have ha: "astar_head open_grid (Cell 0 0) (Cell 0 0) (?ga, [(0, 0, 0, Cell 0 0)], [key (Cell 0 0) \<mapsto> 0], 1, {})"
    using astar_head_init[of open_grid "Cell 0 0" "Cell 0 0"]
    by (simp add: astar_init_def Let_def heappush_def heuristic_def)
  have pop: "heappop [(0, 0, 0, Cell 0 0)] = ((0, 0, 0, Cell 0 0), [])" by (simp add: heappop_def)
  have v: "visited_cells ?ga = []" by (simp add: astar_init_def Let_def init_graph_def)
  note T = trace_path_only_on_cells_with_parent[where graph = open_grid and start = "Cell 0 0"
      and goal = "Cell 0 0" and g = ?g and stack = "[Cell 0 0]" and visited = "{key (Cell 0 0)}"
      and g' = ?g and queue = "[Cell 0 0]" and visited' = "{key (Cell 0 0)}"
      and gr = ?ga and open_heap = "[(0, 0, 0, Cell 0 0)]" and g_cost = "[key (Cell 0 0) \<mapsto> 0]"
      and counter = 1 and closed = "{}" and f = 0 and gc = 0 and n = 0 and current = "Cell 0 0"
      and open_heap' = "[]" and e = No_parent_entry]
  from T hd hb ha pop v show ?thesis by simp
qed

subsection \<open>Entries of pushed cells (C7)\<close>











subsection \<open>Reset (C9)\<close>

lemma init_graph_cong: "find_neighbors g1 = find_neighbors g2 \<Longrightarrow> init_graph g1 = init_graph g2"
  by (cases g1; cases g2) (simp add: init_graph_def)

lemma init_graph_idem: "init_graph (init_graph g) = init_graph g"
  by (simp add: init_graph_def)

lemma dfs_cong:
  "find_neighbors g1 = find_neighbors g2 \<Longrightarrow> depth_first_search g1 s t = depth_first_search g2 s t"
  by (simp add: depth_first_search_def search_init_def init_graph_cong[of g1 g2])

lemma bfs_cong:
  "find_neighbors g1 = find_neighbors g2 \<Longrightarrow> breadth_first_search g1 s t = breadth_first_search g2 s t"
  by (simp add: breadth_first_search_def search_init_def init_graph_cong[of g1 g2])

lemma astar_cong:
  "find_neighbors g1 = find_neighbors g2 \<Longrightarrow> a_star_search g1 s t = a_star_search g2 s t"
  by (simp add: a_star_search_def astar_init_def init_graph_cong[of g1 g2])

lemma dfs_result_neighbors:
  assumes "depth_first_search g0 s t = Some (Inr (g', p))"
  shows "find_neighbors g' = find_neighbors g0"
proof -
  have h0: "dfs_head g0 s t (search_init g0 s)" by (rule dfs_head_init)
  from assms have "dfs_loop (search_init g0 s) t = Some (Inr (g', p))" by (simp add: depth_first_search_def)
  from dfs_loop_exit[OF this h0] obtain g fr V where
    h: "dfs_head g0 s t (g, fr, V)" and e: "fr = [] \<longrightarrow> Inr (g', p) = Inr (g, [])"
    and ne: "fr \<noteq> [] \<longrightarrow> return_path (last fr) g = Some (Inr (g', p))"
    by blast
  from e ne have "g' = g" by (cases "fr = []") (auto dest: return_path_graph)
  with dfs_head_inv[OF h] show ?thesis by (auto simp: fs_inv_def fs_common_def)
qed

lemma bfs_result_neighbors:
  assumes "breadth_first_search g0 s t = Some (Inr (g', p))"
  shows "find_neighbors g' = find_neighbors g0"
proof -
  have h0: "bfs_head g0 s t (search_init g0 s)" by (rule bfs_head_init)
  from assms have "bfs_loop (search_init g0 s) t = Some (Inr (g', p))" by (simp add: breadth_first_search_def)
  from bfs_loop_exit[OF this h0] obtain g fr V where
    h: "bfs_head g0 s t (g, fr, V)" and e: "fr = [] \<longrightarrow> Inr (g', p) = Inr (g, [])"
    and ne: "fr \<noteq> [] \<longrightarrow> return_path (hd fr) g = Some (Inr (g', p))"
    by blast
  from e ne have "g' = g" by (cases "fr = []") (auto dest: return_path_graph)
  with bfs_head_fs_inv[OF h] show ?thesis by (auto simp: fs_inv_def fs_common_def)
qed

lemma astar_result_neighbors:
  assumes "a_star_search g0 s t = Some (Inr (g', p))"
  shows "find_neighbors g' = find_neighbors g0"
proof -
  have h0: "astar_head g0 s t (astar_init g0 s t)" by (rule astar_head_init)
  from assms have "a_star_loop (astar_init g0 s t) t = Some (Inr (g', p))" by (simp add: a_star_search_def)
  from a_star_loop_exit[OF this h0] obtain gr H G cnt C where
    h: "astar_head g0 s t (gr, H, G, cnt, C)" and e: "H = [] \<longrightarrow> Inr (g', p) = Inr (gr, [])"
    and ne: "H \<noteq> [] \<longrightarrow> (\<exists>x.
        return_path x (gr\<lparr>visited_cells := visited_cells gr @ [Cell (cell_i x) (cell_j x)]\<rparr>) = Some (Inr (g', p)))"
    by blast
  from e ne have "find_neighbors g' = find_neighbors gr"
    by (cases "H = []") (auto dest: return_path_graph)
  with astar_head_inv[OF h] show ?thesis by (auto simp: as_inv_def as_common_def)
qed

text \<open>
  Claim C9. The state a search starts its loop from is built from \<open>init_graph graph\<close>,
  whose parent dictionary and visited log are empty, and holds the start's entries only.
  Consequently a second run on the graph a first run returned gives, for any start and
  goal, exactly the result (parent dictionary, visited log and path) it gives on the
  freshly reset graph: nothing of the first run is left.
\<close>

theorem reset_discards_previous_run:
  "search_init graph start =
     ((init_graph graph)\<lparr>parent := [key start \<mapsto> None], visited_cells := [start]\<rparr>,
      [start], {key start}) \<and>
   astar_init graph start goal =
     ((init_graph graph)\<lparr>parent := [key start \<mapsto> None]\<rparr>,
      [(heuristic start goal, 0, 0, start)], [key start \<mapsto> 0], 1, {}) \<and>
   parent (init_graph graph) = Map.empty \<and> visited_cells (init_graph graph) = [] \<and>
   (depth_first_search graph sa ta = Some (Inr (gd, pd)) \<longrightarrow>
      depth_first_search gd sb tb = depth_first_search (init_graph graph) sb tb) \<and>
   (breadth_first_search graph sa ta = Some (Inr (gb, pb)) \<longrightarrow>
      breadth_first_search gb sb tb = breadth_first_search (init_graph graph) sb tb) \<and>
   (a_star_search graph sa ta = Some (Inr (ga, pa)) \<longrightarrow>
      a_star_search ga sb tb = a_star_search (init_graph graph) sb tb)"
proof (intro conjI impI)
  show "search_init graph start =
     ((init_graph graph)\<lparr>parent := [key start \<mapsto> None], visited_cells := [start]\<rparr>,
      [start], {key start})"
    by (simp add: search_init_def Let_def init_graph_def)
  show "astar_init graph start goal =
     ((init_graph graph)\<lparr>parent := [key start \<mapsto> None]\<rparr>,
      [(heuristic start goal, 0, 0, start)], [key start \<mapsto> 0], 1, {})"
    by (simp add: astar_init_def Let_def init_graph_def heappush_def)
  show "parent (init_graph graph) = Map.empty" "visited_cells (init_graph graph) = []"
    by (simp_all add: init_graph_def)
next
  assume "depth_first_search graph sa ta = Some (Inr (gd, pd))"
  from dfs_result_neighbors[OF this] have "find_neighbors gd = find_neighbors (init_graph graph)"
    by (simp add: init_graph_def)
  then show "depth_first_search gd sb tb = depth_first_search (init_graph graph) sb tb"
    by (rule dfs_cong)
next
  assume "breadth_first_search graph sa ta = Some (Inr (gb, pb))"
  from bfs_result_neighbors[OF this] have "find_neighbors gb = find_neighbors (init_graph graph)"
    by (simp add: init_graph_def)
  then show "breadth_first_search gb sb tb = breadth_first_search (init_graph graph) sb tb"
    by (rule bfs_cong)
next
  assume "a_star_search graph sa ta = Some (Inr (ga, pa))"
  from astar_result_neighbors[OF this] have "find_neighbors ga = find_neighbors (init_graph graph)"
    by (simp add: init_graph_def)
  then show "a_star_search ga sb tb = a_star_search (init_graph graph) sb tb"
    by (rule astar_cong)
qed

text \<open>
  The open 3 by 3 grid: a run from (0, 0) to (2, 2), then a run from (2, 2) to (0, 0) on
  the graph the first run returned.
\<close>

theorem reset_discards_previous_run_witness:
  "(\<exists>g1 p1. depth_first_search open_grid (Cell 0 0) (Cell 2 2) = Some (Inr (g1, p1)) \<and>
      depth_first_search g1 (Cell 2 2) (Cell 0 0) =
        depth_first_search (init_graph open_grid) (Cell 2 2) (Cell 0 0)) \<and>
   (\<exists>g2 p2. breadth_first_search open_grid (Cell 0 0) (Cell 2 2) = Some (Inr (g2, p2)) \<and>
      breadth_first_search g2 (Cell 2 2) (Cell 0 0) =
        breadth_first_search (init_graph open_grid) (Cell 2 2) (Cell 0 0)) \<and>
   (\<exists>g3 p3. a_star_search open_grid (Cell 0 0) (Cell 2 2) = Some (Inr (g3, p3)) \<and>
      a_star_search g3 (Cell 2 2) (Cell 0 0) =
        a_star_search (init_graph open_grid) (Cell 2 2) (Cell 0 0))"
proof -
  from dfs_returns[OF open_grid_finite] obtain g1 p1 where
    d: "depth_first_search open_grid (Cell 0 0) (Cell 2 2) = Some (Inr (g1, p1))" by blast
  from bfs_returns[OF open_grid_finite] obtain g2 p2 where
    b: "breadth_first_search open_grid (Cell 0 0) (Cell 2 2) = Some (Inr (g2, p2))" by blast
  from astar_returns[OF open_grid_finite] obtain g3 p3 where
    a: "a_star_search open_grid (Cell 0 0) (Cell 2 2) = Some (Inr (g3, p3))" by blast
  note T = reset_discards_previous_run[where graph = open_grid and sa = "Cell 0 0" and ta = "Cell 2 2"
      and sb = "Cell 2 2" and tb = "Cell 0 0" and gd = g1 and pd = p1 and gb = g2 and pb = p2
      and ga = g3 and pa = p3]
  from T d b a show ?thesis by blast
qed

end
